theory Spec2Isabelle
  imports Main "HOL-Library.FSet" "HOL-Library.Multiset"
begin

section \<open>Data model of \<open>order_book.py\<close>\<close>

text \<open>
  Modelled from the spec: the class of the orders is defined by the exchange client, not
  by this module. The module reads one attribute, \<open>order_id\<close> (an integer), and compares
  and hashes orders (\<open>set(...)\<close>, \<open>list.remove\<close>); every other field passes through
  unchanged and is kept here as one opaque component. Equality of orders is equality of
  both components; an exchange client that compares orders by identity is covered by
  putting the identity into the opaque component.
\<close>

datatype 'a order = Order (order_id: int) (details: 'a)

text \<open>The dictionary \<open>{'orders': orders, 'balances': balances}\<close> stored in \<open>_state\<close>.\<close>

datatype ('a, 'b) snapshot = Snapshot (s_orders: "'a order list") (s_balances: "'b option")

text \<open>The class \<open>OrderBook\<close>.\<close>

record ('a, 'b) order_book =
  orders :: "'a order list"
  balances :: "'b option"
  orders_being_placed :: bool
  orders_being_cancelled :: bool

text \<open>
  The private fields of \<open>OrderBookManager\<close>, with the leading underscore dropped.
  Python integers are unbounded (\<open>int\<close>), Python sets are finite (\<open>fset\<close>), and
  \<open>state = None\<close> is the manager before the first successful refresh.
\<close>

record ('a, 'b) manager =
  state :: "('a, 'b) snapshot option"
  refresh_count :: int
  currently_placing_orders :: int
  orders_placed :: "'a order list"
  order_ids_cancelling :: "int fset"
  order_ids_cancelled :: "int fset"

text \<open>Exceptions are values. \<open>CollaboratorError\<close> stands for any \<open>Exception\<close> raised
  by a function the keeper passed in.\<close>

datatype exn = KeyError | ValueError | CollaboratorError

text \<open>What a call of a collaborator function does: it returns a value or it raises.\<close>

datatype 'r call = Returns 'r | Raises exn

section \<open>The operations\<close>

text \<open>
  Python's \<open>set.remove\<close> and \<open>list.remove\<close>: the first raises \<open>KeyError\<close> and the second
  \<open>ValueError\<close> when the element is absent; \<open>list.remove\<close> deletes the first occurrence.
\<close>

definition set_remove :: "'x \<Rightarrow> 'x fset \<Rightarrow> exn + 'x fset" where
  "set_remove x xs = (if x |\<in>| xs then Inr (xs |-| {|x|}) else Inl KeyError)"

definition list_remove :: "'x \<Rightarrow> 'x list \<Rightarrow> exn + 'x list" where
  "list_remove x xs = (if x \<in> set xs then Inr (remove1 x xs) else Inl ValueError)"

text \<open>\<open>OrderBookManager.__init__\<close>.\<close>

definition init :: "('a, 'b) manager" where
  "init = \<lparr> state = None, refresh_count = 0, currently_placing_orders = 0,
            orders_placed = [], order_ids_cancelling = {||}, order_ids_cancelled = {||} \<rparr>"

text \<open>
  The body of the loop in lines 159 to 161: \<open>order\<close> is appended to the local list
  \<open>orders\<close> (here \<open>ords\<close>, the name \<open>orders\<close> being the field of the view) unless an order
  with the same id is already in it.
\<close>

definition add_placed :: "'a order \<Rightarrow> 'a order list \<Rightarrow> 'a order list" where
  "add_placed order ords =
     (if order_id order \<notin> set (map order_id ords) then ords @ [order] else ords)"

text \<open>
  \<open>get_order_book\<close>. While \<open>_state\<close> is \<open>None\<close> the call sleeps and looks again; a
  manager state alone does not change, so on such a state the call has not returned
  (\<open>None\<close>). Otherwise the list of orders is built in the locked block, and the
  \<open>OrderBook\<close> is constructed right after it from the balances and the two flags; the
  function is taken on one manager state, the state at the time of construction.
\<close>

definition get_order_book :: "('a, 'b) manager \<Rightarrow> ('a, 'b) order_book option" where
  "get_order_book m =
     (case state m of
        None \<Rightarrow> None
      | Some st \<Rightarrow>
          let ords = fold add_placed (orders_placed m) (s_orders st);
              ords = filter (\<lambda>order. order_id order |\<notin>| order_ids_cancelling m \<and>
                                      order_id order |\<notin>| order_ids_cancelled m) ords
          in Some \<lparr> orders = ords,
                    balances = s_balances st,
                    orders_being_placed = (currently_placing_orders m > 0),
                    orders_being_cancelled = (fcard (order_ids_cancelling m) > 0) \<rparr>)"

text \<open>\<open>place_order\<close>, the part done before the thread is started.\<close>

definition place_order :: "('a, 'b) manager \<Rightarrow> ('a, 'b) manager" where
  "place_order m = m\<lparr> currently_placing_orders := currently_placing_orders m + 1 \<rparr>"

text \<open>The two locked blocks of the function built by \<open>_thread_place_order\<close>.\<close>

definition place_append :: "'a order \<Rightarrow> ('a, 'b) manager \<Rightarrow> ('a, 'b) manager" where
  "place_append new_order m = m\<lparr> orders_placed := orders_placed m @ [new_order] \<rparr>"

definition place_finally :: "('a, 'b) manager \<Rightarrow> ('a, 'b) manager" where
  "place_finally m = m\<lparr> currently_placing_orders := currently_placing_orders m - 1 \<rparr>"

text \<open>
  The function built by \<open>_thread_place_order\<close>, run on its own. The argument is what
  \<open>place_order_function()\<close> does; \<open>Returns None\<close> is a returned \<open>None\<close>. The second
  component of the result is the exception that leaves the thread, if any.
\<close>

definition thread_place_order ::
  "'a order option call \<Rightarrow> ('a, 'b) manager \<Rightarrow> ('a, 'b) manager \<times> exn option" where
  "thread_place_order placed m =
     (case placed of
        Returns new_order \<Rightarrow>
          (case new_order of
             Some order \<Rightarrow> (place_finally (place_append order m), None)
           | None \<Rightarrow> (place_finally m, None))
      | Raises e \<Rightarrow> (place_finally m, Some e))"

text \<open>\<open>cancel_order\<close>, the part done before the thread is started.\<close>

definition cancel_order :: "int \<Rightarrow> ('a, 'b) manager \<Rightarrow> ('a, 'b) manager" where
  "cancel_order oid m = m\<lparr> order_ids_cancelling := finsert oid (order_ids_cancelling m) \<rparr>"

text \<open>
  The locked block of lines 284 to 286: \<open>set.add\<close>, then \<open>set.remove\<close>, which raises
  \<open>KeyError\<close> when the id is not in the set.
\<close>

definition cancel_success :: "int \<Rightarrow> ('a, 'b) manager \<Rightarrow> ('a, 'b) manager \<times> exn option" where
  "cancel_success oid m =
     (let m1 = m\<lparr> order_ids_cancelled := finsert oid (order_ids_cancelled m) \<rparr>
      in case set_remove oid (order_ids_cancelling m1) of
           Inr ids \<Rightarrow> (m1\<lparr> order_ids_cancelling := ids \<rparr>, None)
         | Inl e \<Rightarrow> (m1, Some e))"

text \<open>
  The \<open>finally\<close> block of lines 288 to 292: \<open>set.remove\<close> inside
  \<open>try ... except KeyError: pass\<close>.
\<close>

definition cancel_finally :: "int \<Rightarrow> ('a, 'b) manager \<Rightarrow> ('a, 'b) manager \<times> exn option" where
  "cancel_finally oid m =
     (case set_remove oid (order_ids_cancelling m) of
        Inr ids \<Rightarrow> (m\<lparr> order_ids_cancelling := ids \<rparr>, None)
      | Inl e \<Rightarrow> (if e = KeyError then (m, None) else (m, Some e)))"

text \<open>
  The function built by \<open>_thread_cancel_order\<close>, run on its own. The argument is what
  \<open>cancel_order_function()\<close> does; \<open>Returns b\<close> is a returned value of truth value \<open>b\<close>.
\<close>

definition thread_cancel_order ::
  "int \<Rightarrow> bool call \<Rightarrow> ('a, 'b) manager \<Rightarrow> ('a, 'b) manager \<times> exn option" where
  "thread_cancel_order oid cancelled m =
     (case cancelled of
        Returns ok \<Rightarrow>
          (if ok
           then (case cancel_success oid m of
                   (m1, err) \<Rightarrow> (fst (cancel_finally oid m1), err))
           else (fst (cancel_finally oid m), None))
      | Raises e \<Rightarrow> (fst (cancel_finally oid m), Some e))"

text \<open>
  The refresher, \<open>_thread_refresh_order_book\<close>. One cycle has two locked blocks with
  the calls of the providers between them, which hold no lock.

  First block (lines 235 to 237): copies of the cancelled ids and of the placed orders.
  \<open>set(self._orders_placed)\<close> is a set of orders, which the second block only iterates
  over; Python fixes no order of iteration, so the copy is a list without duplicates and
  what is proved of the second block is proved for every such list.
\<close>

definition refresh_begin :: "('a, 'b) manager \<Rightarrow> int fset \<times> 'a order list" where
  "refresh_begin m = (order_ids_cancelled m, remdups (orders_placed m))"

text \<open>
  Lines 240 and 241: the orders provider, then the balances provider when one is
  configured (\<open>None\<close>: not configured). The first exception ends the \<open>try\<close> block.
\<close>

definition fetch :: "'a order list call \<Rightarrow> 'b call option \<Rightarrow> ('a order list \<times> 'b option) call" where
  "fetch get_orders get_balances =
     (case get_orders of
        Raises e \<Rightarrow> Raises e
      | Returns ords \<Rightarrow>
          (case get_balances of
             None \<Rightarrow> Returns (ords, None)
           | Some (Raises e) \<Rightarrow> Raises e
           | Some (Returns bals) \<Rightarrow> Returns (ords, Some bals)))"

text \<open>
  Lines 245 and 246: \<open>list.remove\<close> for each order of the copy. The list is changed in
  place, so when a \<open>remove\<close> raises, the removals done before it stay.
\<close>

fun remove_placed :: "'a order list \<Rightarrow> 'a order list \<Rightarrow> 'a order list \<times> exn option" where
  "remove_placed [] placed = (placed, None)"
| "remove_placed (order # rest) placed =
     (case list_remove order placed of
        Inl e \<Rightarrow> (placed, Some e)
      | Inr placed' \<Rightarrow> remove_placed rest placed')"

text \<open>
  Second block (lines 243 to 257), from the copies, what the providers did and the
  manager as it is at that moment. The second component is the exception that the
  \<open>except Exception\<close> clause catches and logs, if any; nothing leaves the loop body.
\<close>

definition refresh_end ::
  "int fset \<times> 'a order list \<Rightarrow> ('a order list \<times> 'b option) call \<Rightarrow> ('a, 'b) manager \<Rightarrow>
   ('a, 'b) manager \<times> exn option" where
  "refresh_end before fetched m =
     (case fetched of
        Raises e \<Rightarrow> (m, Some e)
      | Returns (ords, bals) \<Rightarrow>
          (let m1 = m\<lparr> order_ids_cancelled := order_ids_cancelled m |-| fst before \<rparr>;
               (placed, err) = remove_placed (snd before) (orders_placed m1);
               m2 = m1\<lparr> orders_placed := placed \<rparr>
           in case err of
                Some e \<Rightarrow> (m2, Some e)
              | None \<Rightarrow> (m2\<lparr> state := Some (Snapshot ords bals),
                               refresh_count := refresh_count m2 + 1 \<rparr>, None)))"



section \<open>Threads running together\<close>

text \<open>
  Every change of the manager happens in a block that holds \<open>_lock\<close>, so a run of the
  program is a sequence of such blocks, taken from the threads in any order. An event is
  one block; the refresher's copies live between its two blocks, next to the manager.
\<close>

datatype ('a, 'b) event =
    PlaceOrder
  | PlaceAppend "'a order"
  | PlaceFinally
  | CancelOrder int
  | CancelSuccess int
  | CancelFinally int
  | RefreshBegin
  | RefreshEnd "'a order list call" "'b call option"

type_synonym ('a, 'b) system = "('a, 'b) manager \<times> (int fset \<times> 'a order list) option"

fun step :: "('a, 'b) event \<Rightarrow> ('a, 'b) system \<Rightarrow> ('a, 'b) system" where
  "step PlaceOrder (m, r) = (place_order m, r)"
| "step (PlaceAppend order) (m, r) = (place_append order m, r)"
| "step PlaceFinally (m, r) = (place_finally m, r)"
| "step (CancelOrder oid) (m, r) = (cancel_order oid m, r)"
| "step (CancelSuccess oid) (m, r) = (fst (cancel_success oid m), r)"
| "step (CancelFinally oid) (m, r) = (fst (cancel_finally oid m), r)"
| "step RefreshBegin (m, r) = (m, Some (refresh_begin m))"
| "step (RefreshEnd get_orders get_balances) (m, r) =
     (case r of
        None \<Rightarrow> (m, None)
      | Some before \<Rightarrow> (fst (refresh_end before (fetch get_orders get_balances) m), None))"

definition run :: "('a, 'b) event list \<Rightarrow> ('a, 'b) system \<Rightarrow> ('a, 'b) system" where
  "run evs s = fold step evs s"

text \<open>A refresh whose providers both return, and the orders it returns.\<close>

fun polled :: "('a, 'b) event \<Rightarrow> 'a order list option" where
  "polled (RefreshEnd get_orders get_balances) =
     (case fetch get_orders get_balances of Returns (ords, bals) \<Rightarrow> Some ords | Raises e \<Rightarrow> None)"
| "polled _ = None"

section \<open>Waiting for a refresh\<close>

text \<open>
  \<open>wait_for_order_book_refresh\<close>. The call reads \<open>_refresh_count\<close> under the lock once at
  the start and once in every turn of its loop; \<open>counter k\<close> is the value it reads the
  \<open>k\<close>-th time, \<open>counter 0\<close> being the first. The result is the number of the read after
  which the call returns; a call that never returns has the value \<open>None\<close>.
\<close>

partial_function (option) wait_loop :: "int \<Rightarrow> (nat \<Rightarrow> int) \<Rightarrow> nat \<Rightarrow> nat option" where
  "wait_loop old_counter counter k =
     (if counter k > old_counter then Some k
      else wait_loop old_counter counter (Suc k))"

definition wait_for_order_book_refresh :: "(nat \<Rightarrow> int) \<Rightarrow> nat option" where
  "wait_for_order_book_refresh counter = wait_loop (counter 0) counter (Suc 0)"

section \<open>The lists as objects\<close>

text \<open>
  \<open>get_order_book\<close> once more, with the lists as objects. A Python list is an object
  that \<open>append\<close> changes in place; whether \<open>get_order_book\<close> changes what the manager
  stores depends on which list object it appends to. Here the list objects live in a
  store, \<open>list_objects\<close>, and an address is an index into it; \<open>_state['orders']\<close> and
  \<open>_orders_placed\<close> are addresses. \<open>get_order_book\<close> calls no method that changes a set
  or an integer and assigns to no field, so these stay values.
\<close>

record ('a, 'b) heap_manager =
  list_objects :: "'a order list list"
  h_state :: "(nat \<times> 'b option) option"
  h_refresh_count :: int
  h_currently_placing_orders :: int
  h_orders_placed :: nat
  h_order_ids_cancelling :: "int fset"
  h_order_ids_cancelled :: "int fset"

text \<open>
  The \<open>OrderBook\<close> that is returned, holding the address of its list of orders.
\<close>

record 'b order_book_ref =
  ref_orders :: nat
  ref_balances :: "'b option"
  ref_orders_being_placed :: bool
  ref_orders_being_cancelled :: bool

text \<open>
  \<open>list(...)\<close> makes a new list object, at the next free address; \<open>append\<close> changes the
  object at an address.
\<close>

definition list_new :: "'x list \<Rightarrow> 'x list list \<Rightarrow> nat \<times> 'x list list" where
  "list_new xs h = (length h, h @ [xs])"

definition list_append :: "nat \<Rightarrow> 'x \<Rightarrow> 'x list list \<Rightarrow> 'x list list" where
  "list_append a x h = h[a := h ! a @ [x]]"

text \<open>
  The loop of lines 159 to 161 over the object \<open>_orders_placed\<close>, by position as Python
  iterates a list, appending to the object \<open>orders\<close>.
\<close>

function h_add_placed ::
  "nat \<Rightarrow> nat \<Rightarrow> nat \<Rightarrow> 'a order list list \<Rightarrow> 'a order list list" where
  "h_add_placed i placed ords h =
     (if i < length (h ! placed)
      then h_add_placed (Suc i) placed ords
             (if order_id (h ! placed ! i) \<notin> set (map order_id (h ! ords))
              then list_append ords (h ! placed ! i) h else h)
      else h)"
  by pat_completeness auto

termination
proof (relation "measure (\<lambda>(i, placed, ords, h). length (h ! placed) - i)")
  show "wf (measure (\<lambda>(i, placed, ords, h). length (h ! placed) - i))"
    by simp
next
  fix i placed ords :: nat and h :: "'a order list list"
  assume less: "i < length (h ! placed)"
  let ?h' = "if order_id (h ! placed ! i) \<notin> set (map order_id (h ! ords))
             then list_append ords (h ! placed ! i) h else h"
  have "length (?h' ! placed) = length (h ! placed)"
  proof (cases "order_id (h ! placed ! i) \<notin> set (map order_id (h ! ords))")
    case True
    with less have "placed \<noteq> ords" by auto
    with True show ?thesis by (simp add: list_append_def)
  next
    case False
    then show ?thesis by simp
  qed
  with less show "((Suc i, placed, ords, ?h'), (i, placed, ords, h))
      \<in> measure (\<lambda>(i, placed, ords, h). length (h ! placed) - i)"
    by simp
qed

text \<open>
  \<open>get_order_book\<close>: \<open>list(self._state['orders'])\<close> is a new object, the loop appends
  to it, and \<open>list(filter(...))\<close> is a second new object, the one returned.
\<close>

definition h_get_order_book ::
  "('a, 'b) heap_manager \<Rightarrow> ('b order_book_ref \<times> ('a, 'b) heap_manager) option" where
  "h_get_order_book hm =
     (case h_state hm of
        None \<Rightarrow> None
      | Some (snap, bals) \<Rightarrow>
          (case list_new (list_objects hm ! snap) (list_objects hm) of
             (ords, h1) \<Rightarrow>
               (case list_new
                       (filter (\<lambda>order. order_id order |\<notin>| h_order_ids_cancelling hm \<and>
                                        order_id order |\<notin>| h_order_ids_cancelled hm)
                          (h_add_placed 0 (h_orders_placed hm) ords h1 ! ords))
                       (h_add_placed 0 (h_orders_placed hm) ords h1) of
                  (result, h3) \<Rightarrow>
                    Some (\<lparr> ref_orders = result,
                            ref_balances = bals,
                            ref_orders_being_placed = (h_currently_placing_orders hm > 0),
                            ref_orders_being_cancelled =
                              (fcard (h_order_ids_cancelling hm) > 0) \<rparr>,
                          hm\<lparr> list_objects := h3 \<rparr>))))"

text \<open>
  The manager and the view as values, read from the store.
\<close>

definition manager_of :: "('a, 'b) heap_manager \<Rightarrow> ('a, 'b) manager" where
  "manager_of hm =
     \<lparr> state = (case h_state hm of
                  None \<Rightarrow> None
                | Some (snap, bals) \<Rightarrow> Some (Snapshot (list_objects hm ! snap) bals)),
       refresh_count = h_refresh_count hm,
       currently_placing_orders = h_currently_placing_orders hm,
       orders_placed = list_objects hm ! h_orders_placed hm,
       order_ids_cancelling = h_order_ids_cancelling hm,
       order_ids_cancelled = h_order_ids_cancelled hm \<rparr>"

definition view_of :: "('a, 'b) heap_manager \<Rightarrow> 'b order_book_ref \<Rightarrow> ('a, 'b) order_book" where
  "view_of hm ob =
     \<lparr> orders = list_objects hm ! ref_orders ob,
       balances = ref_balances ob,
       orders_being_placed = ref_orders_being_placed ob,
       orders_being_cancelled = ref_orders_being_cancelled ob \<rparr>"

section \<open>Descriptions used in the properties\<close>

text \<open>
  Modelled after the words of the specification (section 4.3, step 2), to be compared
  with the loop of the source: "append every order in \<open>placed_unconfirmed\<close> whose
  \<open>order_id\<close> is not already present (by id) in that list". Going through the placed
  orders from the first to the last, an order is taken when its id is not among the ids
  \<open>seen\<close> so far: those of the snapshot and those of the orders taken before it.
\<close>

fun spec_appended :: "int set \<Rightarrow> 'a order list \<Rightarrow> 'a order list" where
  "spec_appended seen [] = []"
| "spec_appended seen (order # rest) =
     (if order_id order \<in> seen then spec_appended seen rest
      else order # spec_appended (insert (order_id order) seen) rest)"

text \<open>
  The ids of the orders of the snapshot are pairwise distinct (nothing is asked of a
  manager without a snapshot).
\<close>

definition snapshot_ids_distinct :: "('a, 'b) system \<Rightarrow> bool" where
  "snapshot_ids_distinct s =
     (case state (fst s) of None \<Rightarrow> True | Some st \<Rightarrow> distinct (map order_id (s_orders st)))"

text \<open>
  The copy of the placed orders that the refresher holds between its two blocks has no
  duplicates, and all its orders are still among the placed orders.
\<close>

definition copies_current :: "('a, 'b) system \<Rightarrow> bool" where
  "copies_current s =
     (case snd s of
        None \<Rightarrow> True
      | Some before \<Rightarrow>
          distinct (snd before) \<and> list_all (\<lambda>order. order \<in> set (orders_placed (fst s))) (snd before))"

text \<open>
  The two blocks of the refresher itself; between them only blocks of the other threads
  run.
\<close>

fun refresher_block :: "('a, 'b) event \<Rightarrow> bool" where
  "refresher_block RefreshBegin = True"
| "refresher_block (RefreshEnd get_orders get_balances) = True"
| "refresher_block _ = False"

section \<open>Examples\<close>

text \<open>
  A manager after one refresh that returned the orders 1 and 2: order 3 has been placed
  since, another placement is running, and order 2 is being cancelled. Then the view of
  it, and a run of the threads that leads to it.
\<close>

definition example_manager :: "(unit, unit) manager" where
  "example_manager =
     \<lparr> state = Some (Snapshot [Order 1 (), Order 2 ()] None), refresh_count = 1,
       currently_placing_orders = 1, orders_placed = [Order 3 ()],
       order_ids_cancelling = {|2|}, order_ids_cancelled = {||} \<rparr>"

definition example_view :: "(unit, unit) order_book" where
  "example_view = \<lparr> orders = [Order 1 (), Order 3 ()], balances = None,
                    orders_being_placed = True, orders_being_cancelled = True \<rparr>"

definition example_events :: "(unit, unit) event list" where
  "example_events =
     [RefreshBegin, RefreshEnd (Returns [Order 1 (), Order 2 ()]) None,
      PlaceOrder, PlaceAppend (Order 3 ()), CancelOrder 2]"

text \<open>
  Two different orders with the id 3, placed after a refresh that returned no orders,
  and the manager these blocks lead to.
\<close>

definition example_same_id_events :: "(bool, unit) event list" where
  "example_same_id_events =
     [RefreshBegin, RefreshEnd (Returns []) None,
      PlaceOrder, PlaceAppend (Order 3 True), PlaceFinally,
      PlaceOrder, PlaceAppend (Order 3 False), PlaceFinally]"

definition example_same_id :: "(bool, unit) manager" where
  "example_same_id =
     \<lparr> state = Some (Snapshot [] None), refresh_count = 1,
       currently_placing_orders = 0, orders_placed = [Order 3 True, Order 3 False],
       order_ids_cancelling = {||}, order_ids_cancelled = {||} \<rparr>"

text \<open>
  The example manager with its two lists as objects 0 and 1.
\<close>

definition example_heap_manager :: "(unit, unit) heap_manager" where
  "example_heap_manager =
     \<lparr> list_objects = [[Order 3 ()], [Order 1 (), Order 2 ()]], h_state = Some (1, None),
       h_refresh_count = 1, h_currently_placing_orders = 1, h_orders_placed = 0,
       h_order_ids_cancelling = {|2|}, h_order_ids_cancelled = {||} \<rparr>"

text \<open>
  A refresh begins when the cancelled ids are \<open>{5}\<close> and the placed orders \<open>[3]\<close>; while
  the providers are called, order 7 is cancelled with success and order 4 is placed. The
  manager at the first block, the blocks of the other threads, the manager before and
  after the second block, and events after it among which no refresh succeeds.
\<close>

definition example_polling :: "(unit, unit) manager" where
  "example_polling =
     \<lparr> state = Some (Snapshot [Order 1 (), Order 7 ()] None), refresh_count = 1,
       currently_placing_orders = 0, orders_placed = [Order 3 ()],
       order_ids_cancelling = {||}, order_ids_cancelled = {|5|} \<rparr>"

definition example_between :: "(unit, unit) event list" where
  "example_between =
     [CancelOrder 7, CancelSuccess 7, CancelFinally 7,
      PlaceOrder, PlaceAppend (Order 4 ()), PlaceFinally]"

definition example_racing :: "(unit, unit) manager" where
  "example_racing =
     \<lparr> state = Some (Snapshot [Order 1 (), Order 7 ()] None), refresh_count = 1,
       currently_placing_orders = 0, orders_placed = [Order 3 (), Order 4 ()],
       order_ids_cancelling = {||}, order_ids_cancelled = {|5, 7|} \<rparr>"

definition example_reconciled :: "(unit, unit) manager" where
  "example_reconciled =
     \<lparr> state = Some (Snapshot [Order 1 (), Order 3 (), Order 7 ()] None), refresh_count = 2,
       currently_placing_orders = 0, orders_placed = [Order 4 ()],
       order_ids_cancelling = {||}, order_ids_cancelled = {|7|} \<rparr>"

definition example_quiet :: "(unit, unit) event list" where
  "example_quiet = [RefreshBegin, CancelOrder 1, RefreshEnd (Raises CollaboratorError) None]"

text \<open>
  The same order placed twice.
\<close>

definition example_duplicate_placing :: "(unit, unit) event list" where
  "example_duplicate_placing =
     [PlaceOrder, PlaceAppend (Order 3 ()), PlaceFinally,
      PlaceOrder, PlaceAppend (Order 3 ()), PlaceFinally]"

text \<open>
  Order 7 cancelled with success, and \<open>cancel_order\<close> called for it a second time before
  any refresh: the id is in both sets.
\<close>

definition example_twice_cancelled :: "(unit, unit) manager" where
  "example_twice_cancelled =
     cancel_order 7 (fst (thread_cancel_order 7 (Returns True) (cancel_order 7 init)))"

text \<open>
  A counter that is 4 at the first three reads and 5 from the fourth on, and a schedule
  in which every refresh fails.
\<close>

definition example_counter :: "nat \<Rightarrow> int" where
  "example_counter k = (if k < 3 then 4 else 5)"

definition example_failing :: "nat \<Rightarrow> (unit, unit) event" where
  "example_failing i =
     (if even i then RefreshBegin else RefreshEnd (Raises CollaboratorError) None)"

section \<open>Properties of the view\<close>

lemma get_order_book_Some:
  "state m = Some st \<Longrightarrow> \<exists>ob. get_order_book m = Some ob"
  by (simp add: get_order_book_def Let_def)

lemma fold_add_placed:
  "fold add_placed placed acc = acc @ spec_appended (order_id ` set acc) placed"
  by (induction placed arbitrary: acc) (auto simp: add_placed_def insert_commute)

lemma spec_appended_subset: "set (spec_appended seen placed) \<subseteq> set placed"
  by (induction placed arbitrary: seen) auto

lemma spec_appended_ids:
  "order_id ` set (spec_appended seen placed) = order_id ` set placed - seen"
  by (induction placed arbitrary: seen) auto

lemma spec_appended_distinct: "distinct (map order_id (spec_appended seen placed))"
  by (induction placed arbitrary: seen) (auto simp: spec_appended_ids)

lemma spec_appended_find:
  "i \<notin> seen \<Longrightarrow>
   find (\<lambda>x. order_id x = i) (spec_appended seen placed) = find (\<lambda>x. order_id x = i) placed"
proof (induction placed arbitrary: seen)
  case Nil
  then show ?case by simp
next
  case (Cons order rest)
  show ?case
  proof (cases "order_id order = i")
    case True
    with Cons.prems show ?thesis by simp
  next
    case False
    with Cons show ?thesis by simp
  qed
qed

lemma distinct_ids_count:
  "distinct (map order_id xs) \<Longrightarrow> i \<in> order_id ` set xs \<Longrightarrow>
   length (filter (\<lambda>x. order_id x = i) xs) = 1"
  by (induction xs) (auto simp: filter_empty_conv image_iff)

lemma fold_add_placed_distinct:
  "distinct (map order_id acc) \<Longrightarrow> distinct (map order_id (fold add_placed placed acc))"
  by (auto simp: fold_add_placed spec_appended_distinct spec_appended_ids)

lemma get_order_book_orders:
  "state m = Some st \<Longrightarrow> get_order_book m = Some ob \<Longrightarrow>
   orders ob = filter (\<lambda>order. order_id order |\<notin>| order_ids_cancelling m \<and>
                                order_id order |\<notin>| order_ids_cancelled m)
                 (s_orders st @ spec_appended (order_id ` set (s_orders st)) (orders_placed m))"
  by (auto simp: get_order_book_def Let_def fold_add_placed)

lemma fcard_pos_iff: "0 < fcard A \<longleftrightarrow> A \<noteq> {||}"
  by (simp add: zero_less_iff_neq_zero)

lemma example_get_order_book: "get_order_book example_manager = Some example_view"
  by (simp add: get_order_book_def example_manager_def example_view_def add_placed_def
      fcard_pos_iff)

lemma example_run: "run example_events (init, None) = (example_manager, None)"
  by (simp add: run_def example_events_def init_def refresh_begin_def fetch_def
      refresh_end_def place_order_def place_append_def cancel_order_def example_manager_def)

text \<open>
  Claim C8. In every view that \<open>get_order_book\<close> returns, \<open>orders_being_placed\<close> is true
  exactly when \<open>_currently_placing_orders\<close> is greater than zero, and
  \<open>orders_being_cancelled\<close> is true exactly when \<open>_order_ids_cancelling\<close> is not empty.
\<close>

theorem view_flags:
  assumes "get_order_book m = Some ob"
  shows "orders_being_placed ob = (currently_placing_orders m > 0) \<and>
         orders_being_cancelled ob = (order_ids_cancelling m \<noteq> {||})"
  using assms
  by (auto simp: get_order_book_def Let_def fcard_pos_iff split: option.splits)

theorem view_flags_witness:
  "get_order_book example_manager = Some example_view \<and>
   orders_being_placed example_view = (0 < currently_placing_orders example_manager) \<and>
   orders_being_cancelled example_view = (order_ids_cancelling example_manager \<noteq> {||})"
  using view_flags [OF example_get_order_book] example_get_order_book by blast

text \<open>
  Claim C2. On a manager with a snapshot, \<open>get_order_book\<close> returns a view, and no order
  of the view has its id in \<open>_order_ids_cancelling\<close> or in \<open>_order_ids_cancelled\<close>. In
  particular the view taken right after \<open>cancel_order\<close> has put an id into
  \<open>_order_ids_cancelling\<close> has no order with that id, whatever the manager was before.
\<close>

theorem view_hides_cancelled:
  assumes "state m = Some st"
  shows "\<exists>ob. get_order_book m = Some ob \<and>
           (\<forall>order \<in> set (orders ob).
              order_id order |\<notin>| order_ids_cancelling m \<and>
              order_id order |\<notin>| order_ids_cancelled m) \<and>
           (\<exists>ob'. get_order_book (cancel_order oid m) = Some ob' \<and>
              oid \<notin> order_id ` set (orders ob'))"
  using assms
  by (auto simp: get_order_book_def Let_def cancel_order_def)

theorem view_hides_cancelled_witness:
  "state example_manager = Some (Snapshot [Order 1 (), Order 2 ()] None) \<and>
   2 |\<in>| order_ids_cancelling example_manager \<and>
   (\<exists>ob. get_order_book example_manager = Some ob \<and> 2 \<notin> order_id ` set (orders ob) \<and>
      (\<exists>ob'. get_order_book (cancel_order 1 example_manager) = Some ob' \<and>
         1 \<notin> order_id ` set (orders ob')))"
proof -
  have h: "state example_manager = Some (Snapshot [Order 1 (), Order 2 ()] None)"
    by (simp add: example_manager_def)
  have c: "2 |\<in>| order_ids_cancelling example_manager"
    by (simp add: example_manager_def)
  from view_hides_cancelled [OF h, of 1] c h show ?thesis
    by fastforce
qed

section \<open>Distinct ids in every run\<close>

lemma state_place_order [simp]: "state (place_order m) = state m"
  by (simp add: place_order_def)

lemma state_place_append [simp]: "state (place_append order m) = state m"
  by (simp add: place_append_def)

lemma state_place_finally [simp]: "state (place_finally m) = state m"
  by (simp add: place_finally_def)

lemma state_cancel_order [simp]: "state (cancel_order oid m) = state m"
  by (simp add: cancel_order_def)

lemma state_cancel_success [simp]: "state (fst (cancel_success oid m)) = state m"
  by (simp add: cancel_success_def Let_def split: sum.splits)

lemma state_cancel_finally [simp]: "state (fst (cancel_finally oid m)) = state m"
  by (simp add: cancel_finally_def split: sum.splits)

lemma state_refresh_end:
  "state (fst (refresh_end before fetched m)) = Some st \<Longrightarrow>
   state m = Some st \<or> (\<exists>bals. fetched = Returns (s_orders st, bals))"
  by (auto simp: refresh_end_def Let_def split: call.splits prod.splits option.splits)

lemma step_snapshot_ids_distinct:
  assumes "snapshot_ids_distinct s"
    and "\<And>ords. polled e = Some ords \<Longrightarrow> distinct (map order_id ords)"
  shows "snapshot_ids_distinct (step e s)"
proof (cases s)
  case (Pair m r)
  show ?thesis
  proof (cases e)
    case (RefreshEnd get_orders get_balances)
    show ?thesis
    proof (cases r)
      case None
      with assms(1) Pair RefreshEnd show ?thesis by (simp add: snapshot_ids_distinct_def)
    next
      case (Some before)
      show ?thesis
        unfolding snapshot_ids_distinct_def
      proof (cases "state (fst (step e s))")
        case None
        then show "case state (fst (step e s)) of None \<Rightarrow> True
                   | Some st \<Rightarrow> distinct (map order_id (s_orders st))" by simp
      next
        case (Some st)
        with Pair RefreshEnd \<open>r = Some before\<close>
        have "state (fst (refresh_end before (fetch get_orders get_balances) m)) = Some st"
          by simp
        from state_refresh_end [OF this]
        have "distinct (map order_id (s_orders st))"
        proof
          assume "state m = Some st"
          with assms(1) Pair show ?thesis by (simp add: snapshot_ids_distinct_def)
        next
          assume "\<exists>bals. fetch get_orders get_balances = Returns (s_orders st, bals)"
          then have "polled e = Some (s_orders st)" using RefreshEnd by auto
          then show ?thesis by (rule assms(2))
        qed
        with Some show "case state (fst (step e s)) of None \<Rightarrow> True
                   | Some st \<Rightarrow> distinct (map order_id (s_orders st))" by simp
      qed
    qed
  qed (use assms(1) Pair in \<open>simp_all add: snapshot_ids_distinct_def\<close>)
qed

lemma run_snapshot_ids_distinct:
  assumes "snapshot_ids_distinct s"
    and "\<forall>e \<in> set evs. \<forall>ords. polled e = Some ords \<longrightarrow> distinct (map order_id ords)"
  shows "snapshot_ids_distinct (run evs s)"
  using assms unfolding run_def
proof (induction evs arbitrary: s)
  case Nil
  then show ?case by simp
next
  case (Cons e evs)
  from Cons.prems have "snapshot_ids_distinct (step e s)"
    by (intro step_snapshot_ids_distinct) auto
  with Cons show ?case by simp
qed

lemma get_order_book_distinct:
  assumes "get_order_book m = Some ob"
    and "\<And>st. state m = Some st \<Longrightarrow> distinct (map order_id (s_orders st))"
  shows "distinct (map order_id (orders ob))"
  using assms
  by (auto simp: get_order_book_def Let_def distinct_map_filter fold_add_placed_distinct
      split: option.splits)

text \<open>
  Claim C1. Start from the new manager and let the threads run in any order. If every
  refresh whose providers return brings orders with pairwise distinct ids, then the
  orders of every view that \<open>get_order_book\<close> returns have pairwise distinct ids.
\<close>

theorem view_ids_distinct:
  assumes "\<forall>e \<in> set evs. \<forall>ords. polled e = Some ords \<longrightarrow> distinct (map order_id ords)"
    and "get_order_book (fst (run evs (init, None))) = Some ob"
  shows "distinct (map order_id (orders ob))"
proof -
  have "snapshot_ids_distinct (init, None)"
    by (simp add: snapshot_ids_distinct_def init_def)
  then have "snapshot_ids_distinct (run evs (init, None))"
    using assms(1) by (rule run_snapshot_ids_distinct)
  then show ?thesis
    using assms(2) by (intro get_order_book_distinct) (auto simp: snapshot_ids_distinct_def)
qed

theorem view_ids_distinct_witness:
  "map polled example_events = [None, Some [Order 1 (), Order 2 ()], None, None, None] \<and>
   get_order_book (fst (run example_events (init, None))) = Some example_view \<and>
   distinct (map order_id (orders example_view))"
proof -
  have h1: "\<forall>e \<in> set example_events. \<forall>ords. polled e = Some ords \<longrightarrow>
              distinct (map order_id ords)"
    by (simp add: example_events_def fetch_def)
  have h2: "get_order_book (fst (run example_events (init, None))) = Some example_view"
    by (simp add: example_run example_get_order_book)
  have h3: "map polled example_events = [None, Some [Order 1 (), Order 2 ()], None, None, None]"
    by (simp add: example_events_def fetch_def)
  from view_ids_distinct [OF h1 h2] h2 h3 show ?thesis by (intro conjI)
qed

section \<open>Placed orders in the view\<close>

lemma find_filter_implied:
  "(\<And>x. P x \<Longrightarrow> Q x) \<Longrightarrow> find P (filter Q xs) = find P xs"
  by (induction xs) auto

lemma filter_filter_implied:
  "(\<And>x. P x \<Longrightarrow> Q x) \<Longrightarrow> filter P (filter Q xs) = filter P xs"
  by (induction xs) auto

lemma find_none_ids: "i \<notin> order_id ` set xs \<Longrightarrow> find (\<lambda>x. order_id x = i) xs = None"
  by (auto simp: find_None_iff)

lemma find_append_none: "find P xs = None \<Longrightarrow> find P (xs @ ys) = find P ys"
  by (induction xs) (auto split: if_splits)

lemma filter_none_ids: "i \<notin> order_id ` set xs \<Longrightarrow> filter (\<lambda>x. order_id x = i) xs = []"
  by (auto simp: filter_empty_conv)

lemma count_list_via_id:
  "count_list xs y = count_list (filter (\<lambda>x. order_id x = order_id y) xs) y"
  by (induction xs) auto

lemma singleton_of_length_1: "length xs = 1 \<Longrightarrow> \<exists>x. xs = [x]"
  by (cases xs) auto

text \<open>
  Claim C3 as stated fails: after a refresh that returned no orders, two different orders
  with the id 3 are placed. The second is a placed order whose id is neither in the
  snapshot nor in a cancellation set, and it does not occur in the view, which has the
  first.
\<close>

theorem placed_orders_visible_counterexample:
  "run example_same_id_events (init, None) = (example_same_id, None) \<and>
   state example_same_id = Some (Snapshot [] None) \<and>
   Order 3 False \<in> set (orders_placed example_same_id) \<and>
   3 |\<notin>| order_ids_cancelling example_same_id \<and>
   3 |\<notin>| order_ids_cancelled example_same_id \<and>
   get_order_book example_same_id =
     Some \<lparr> orders = [Order 3 True], balances = None,
            orders_being_placed = False, orders_being_cancelled = False \<rparr> \<and>
   count_list [Order 3 True] (Order 3 False) = 0"
  by (simp add: run_def example_same_id_events_def example_same_id_def init_def
      refresh_begin_def fetch_def refresh_end_def place_order_def place_append_def
      place_finally_def get_order_book_def add_placed_def fcard_fempty)

text \<open>
  Claim C3, amended. On a manager with a snapshot, the orders of the view are the orders
  of the snapshot followed by the placed orders whose id was not yet in the list, in the
  order of \<open>_orders_placed\<close>, with the ids being cancelled or cancelled filtered out.
  Hence for every placed order whose id is neither in the snapshot nor in one of the two
  sets, exactly one order of the view has that id, and it is the first placed order with
  that id; when no other placed order shares the id, the order itself occurs exactly once.
\<close>

theorem placed_orders_visible:
  assumes "state m = Some st"
  shows "\<exists>ob. get_order_book m = Some ob \<and>
           orders ob =
             filter (\<lambda>order. order_id order |\<notin>| order_ids_cancelling m \<and>
                              order_id order |\<notin>| order_ids_cancelled m)
               (s_orders st @ spec_appended (order_id ` set (s_orders st)) (orders_placed m)) \<and>
           (\<forall>order \<in> set (orders_placed m).
              order_id order \<notin> order_id ` set (s_orders st) \<longrightarrow>
              order_id order |\<notin>| order_ids_cancelling m \<longrightarrow>
              order_id order |\<notin>| order_ids_cancelled m \<longrightarrow>
                length (filter (\<lambda>x. order_id x = order_id order) (orders ob)) = 1 \<and>
                find (\<lambda>x. order_id x = order_id order) (orders ob) =
                  find (\<lambda>x. order_id x = order_id order) (orders_placed m) \<and>
                ((\<forall>p \<in> set (orders_placed m). order_id p = order_id order \<longrightarrow> p = order) \<longrightarrow>
                   count_list (orders ob) order = 1))"
proof -
  define keep where "keep = (\<lambda>order :: 'a order. order_id order |\<notin>| order_ids_cancelling m \<and>
                              order_id order |\<notin>| order_ids_cancelled m)"
  define new where "new = spec_appended (order_id ` set (s_orders st)) (orders_placed m)"
  from assms obtain ob where ob: "get_order_book m = Some ob"
    using get_order_book_Some by blast
  have eq: "orders ob = filter keep (s_orders st @ new)"
    using get_order_book_orders [OF assms ob] by (simp add: keep_def new_def)
  have "length (filter (\<lambda>x. order_id x = order_id order) (orders ob)) = 1 \<and>
        find (\<lambda>x. order_id x = order_id order) (orders ob) =
          find (\<lambda>x. order_id x = order_id order) (orders_placed m) \<and>
        ((\<forall>p \<in> set (orders_placed m). order_id p = order_id order \<longrightarrow> p = order) \<longrightarrow>
           count_list (orders ob) order = 1)"
    if mem: "order \<in> set (orders_placed m)"
      and fresh: "order_id order \<notin> order_id ` set (s_orders st)"
      and live: "keep order"
    for order
  proof -
    let ?P = "\<lambda>x. order_id x = order_id order"
    have imp: "\<And>x. ?P x \<Longrightarrow> keep x"
      using live by (simp add: keep_def)
    have "filter ?P (orders ob) = filter ?P (s_orders st @ new)"
      unfolding eq by (rule filter_filter_implied) (rule imp)
    then have sel: "filter ?P (orders ob) = filter ?P new"
      by (simp add: filter_none_ids [OF fresh])
    have "order_id order \<in> order_id ` set new"
      using mem fresh by (simp add: new_def spec_appended_ids)
    then have len: "length (filter ?P (orders ob)) = 1"
      unfolding sel by (intro distinct_ids_count) (simp_all add: new_def spec_appended_distinct)
    have "find ?P (orders ob) = find ?P (s_orders st @ new)"
      unfolding eq by (rule find_filter_implied) (rule imp)
    then have fnd: "find ?P (orders ob) = find ?P (orders_placed m)"
      by (simp add: find_append_none [OF find_none_ids [OF fresh]] new_def
          spec_appended_find [OF fresh])
    have cnt: "count_list (orders ob) order = 1"
      if uniq: "\<forall>p \<in> set (orders_placed m). order_id p = order_id order \<longrightarrow> p = order"
    proof -
      from len obtain x where x: "filter ?P (orders ob) = [x]"
        using singleton_of_length_1 by blast
      then have "x \<in> set (filter ?P new)" by (simp add: sel)
      then have "x \<in> set (orders_placed m)" "order_id x = order_id order"
        using spec_appended_subset [of "order_id ` set (s_orders st)" "orders_placed m"]
        by (auto simp: new_def)
      with uniq have "x = order" by blast
      with x show ?thesis
        by (subst count_list_via_id) simp
    qed
    from len fnd cnt show ?thesis by blast
  qed
  with ob eq show ?thesis
    by (auto simp: keep_def new_def)
qed

theorem placed_orders_visible_witness:
  "state example_manager = Some (Snapshot [Order 1 (), Order 2 ()] None) \<and>
   Order 3 () \<in> set (orders_placed example_manager) \<and>
   get_order_book example_manager = Some example_view \<and>
   orders example_view = [Order 1 (), Order 3 ()] \<and>
   length (filter (\<lambda>x. order_id x = 3) (orders example_view)) = 1 \<and>
   count_list (orders example_view) (Order 3 ()) = 1"
proof -
  have h: "state example_manager = Some (Snapshot [Order 1 (), Order 2 ()] None)"
    by (simp add: example_manager_def)
  have mem: "Order 3 () \<in> set (orders_placed example_manager)"
    by (simp add: example_manager_def)
  have fresh: "order_id (Order 3 ()) \<notin> order_id ` set (s_orders (Snapshot [Order 1 (), Order 2 ()] None))"
    "order_id (Order 3 ()) |\<notin>| order_ids_cancelling example_manager"
    "order_id (Order 3 ()) |\<notin>| order_ids_cancelled example_manager"
    "\<forall>p \<in> set (orders_placed example_manager). order_id p = order_id (Order 3 ()) \<longrightarrow> p = Order 3 ()"
    by (simp_all add: example_manager_def)
  from placed_orders_visible [OF h]
  have "\<forall>order \<in> set (orders_placed example_manager).
          order_id order \<notin> order_id ` set (s_orders (Snapshot [Order 1 (), Order 2 ()] None)) \<longrightarrow>
          order_id order |\<notin>| order_ids_cancelling example_manager \<longrightarrow>
          order_id order |\<notin>| order_ids_cancelled example_manager \<longrightarrow>
            length (filter (\<lambda>x. order_id x = order_id order) (orders example_view)) = 1 \<and>
            find (\<lambda>x. order_id x = order_id order) (orders example_view) =
              find (\<lambda>x. order_id x = order_id order) (orders_placed example_manager) \<and>
            ((\<forall>p \<in> set (orders_placed example_manager).
                order_id p = order_id order \<longrightarrow> p = order) \<longrightarrow>
               count_list (orders example_view) order = 1)"
    unfolding example_get_order_book by (elim exE conjE) simp
  from this [rule_format, OF mem fresh(1-3)] fresh(4)
  have "length (filter (\<lambda>x. order_id x = 3) (orders example_view)) = 1 \<and>
        count_list (orders example_view) (Order 3 ()) = 1"
    by simp
  moreover have "orders example_view = [Order 1 (), Order 3 ()]"
    by (simp add: example_view_def)
  ultimately show ?thesis using h mem example_get_order_book by blast
qed

section \<open>Reconciliation after a refresh\<close>

lemma remove_placed_mset:
  "remove_placed p0 placed = (placed', None) \<Longrightarrow>
   mset p0 \<subseteq># mset placed \<and> mset placed' = mset placed - mset p0"
proof (induction p0 arbitrary: placed)
  case Nil
  then show ?case by simp
next
  case (Cons order rest)
  from Cons.prems have mem: "order \<in> set placed"
    and rest: "remove_placed rest (remove1 order placed) = (placed', None)"
    by (auto simp: list_remove_def split: if_splits)
  from Cons.IH [OF rest]
  have sub: "mset rest \<subseteq># mset placed - {#order#}"
    and eq: "mset placed' = mset placed - {#order#} - mset rest"
    by simp_all
  from sub mem have "mset (order # rest) \<subseteq># mset placed"
    by (simp add: insert_subset_eq_iff)
  moreover from eq have "mset placed' = mset placed - mset (order # rest)"
    by (metis add_mset_add_single diff_diff_add mset.simps(2) union_commute)
  ultimately show ?case by blast
qed

lemma remove_placed_append:
  "distinct p0 \<Longrightarrow> set p0 \<subseteq> set old \<Longrightarrow>
   remove_placed p0 (old @ new) = (fst (remove_placed p0 old) @ new, None) \<and>
   snd (remove_placed p0 old) = None"
proof (induction p0 arbitrary: old)
  case Nil
  then show ?case by simp
next
  case (Cons order rest)
  from Cons.prems have mem: "order \<in> set old" and d: "distinct rest"
    by auto
  have sub: "set rest \<subseteq> set (remove1 order old)"
  proof
    fix x assume x: "x \<in> set rest"
    with Cons.prems have "x \<noteq> order" "x \<in> set old" by auto
    then show "x \<in> set (remove1 order old)" by simp
  qed
  from Cons.IH [OF d sub] mem show ?case
    by (simp add: list_remove_def remove1_append)
qed

lemma remove_placed_succeeds:
  "distinct p0 \<Longrightarrow> set p0 \<subseteq> set placed \<Longrightarrow> snd (remove_placed p0 placed) = None"
  using remove_placed_append [of p0 placed "[]"] by simp

lemma remove_placed_all:
  assumes "distinct p0" "distinct old" "set p0 = set old"
  shows "remove_placed p0 (old @ new) = (new, None)"
proof -
  from assms have app: "remove_placed p0 (old @ new) = (fst (remove_placed p0 old) @ new, None)"
    and ok: "snd (remove_placed p0 old) = None"
    using remove_placed_append [of p0 old new] by simp_all
  from ok have "remove_placed p0 old = (fst (remove_placed p0 old), None)"
    by (simp add: prod_eq_iff)
  from remove_placed_mset [OF this]
  have "mset (fst (remove_placed p0 old)) = mset old - mset p0" by blast
  moreover from assms have "mset p0 = mset old"
    by (simp add: set_eq_iff_mset_eq_distinct)
  ultimately have "mset (fst (remove_placed p0 old)) = {#}" by simp
  with app show ?thesis by simp
qed

lemma refresh_end_raises [simp]: "refresh_end before (Raises e) m = (m, Some e)"
  by (simp add: refresh_end_def)

lemma refresh_end_success:
  assumes "refresh_end (c0, p0) (Returns (ords, bals)) m = (m', None)"
  shows "\<exists>placed'. remove_placed p0 (orders_placed m) = (placed', None) \<and>
           m' = m\<lparr> order_ids_cancelled := order_ids_cancelled m |-| c0,
                    orders_placed := placed',
                    state := Some (Snapshot ords bals),
                    refresh_count := refresh_count m + 1 \<rparr>"
  using assms
  by (auto simp: refresh_end_def Let_def split: prod.splits option.splits)

lemma refresh_end_failure:
  "refresh_end before fetched m = (m', Some e) \<Longrightarrow>
   state m' = state m \<and> refresh_count m' = refresh_count m"
  by (auto simp: refresh_end_def Let_def split: call.splits prod.splits option.splits)

lemma polled_None_fetch:
  "polled (RefreshEnd get_orders get_balances) = None \<Longrightarrow>
   \<exists>e. fetch get_orders get_balances = Raises e"
  by (cases "fetch get_orders get_balances") auto

lemma step_unpolled_cancelled:
  assumes "polled e = None" and "oid |\<in>| order_ids_cancelled (fst s)"
  shows "oid |\<in>| order_ids_cancelled (fst (step e s))"
proof (cases s)
  case (Pair m r)
  show ?thesis
  proof (cases e)
    case (RefreshEnd get_orders get_balances)
    with assms(1) obtain x where "fetch get_orders get_balances = Raises x"
      using polled_None_fetch by blast
    with assms(2) Pair RefreshEnd show ?thesis by (simp split: option.splits)
  qed (use assms(2) Pair in \<open>simp_all add: place_order_def place_append_def place_finally_def
         cancel_order_def cancel_success_def cancel_finally_def Let_def split: sum.splits\<close>)
qed

lemma step_state_stays:
  assumes "state (fst s) \<noteq> None"
  shows "state (fst (step e s)) \<noteq> None"
proof (cases s)
  case (Pair m r)
  show ?thesis
  proof (cases e)
    case (RefreshEnd get_orders get_balances)
    with assms Pair show ?thesis
      by (auto simp: refresh_end_def Let_def split: option.splits call.splits prod.splits)
  qed (use assms Pair in simp_all)
qed

lemma run_unpolled_cancelled:
  assumes "\<forall>e \<in> set evs. polled e = None" and "oid |\<in>| order_ids_cancelled (fst s)"
  shows "oid |\<in>| order_ids_cancelled (fst (run evs s))"
  using assms unfolding run_def
  by (induction evs arbitrary: s) (simp_all add: step_unpolled_cancelled)

lemma run_state_stays:
  "state (fst s) \<noteq> None \<Longrightarrow> state (fst (run evs s)) \<noteq> None"
  unfolding run_def
proof (induction evs arbitrary: s)
  case Nil
  then show ?case by simp
next
  case (Cons e evs)
  from Cons.prems have "state (fst (step e s)) \<noteq> None" by (rule step_state_stays)
  from Cons.IH [OF this] show ?case by simp
qed

lemma get_order_book_hides:
  "get_order_book m = Some ob \<Longrightarrow>
   oid |\<in>| order_ids_cancelling m \<or> oid |\<in>| order_ids_cancelled m \<Longrightarrow>
   oid \<notin> order_id ` set (orders ob)"
  by (auto simp: get_order_book_def Let_def split: option.splits)

lemma step_between:
  assumes "\<not> refresher_block e"
  shows "snd (step e s) = snd s \<and>
         (\<exists>new. orders_placed (fst (step e s)) = orders_placed (fst s) @ new) \<and>
         order_ids_cancelled (fst s) |\<subseteq>| order_ids_cancelled (fst (step e s))"
proof (cases s)
  case (Pair m r)
  show ?thesis
  proof (cases e)
    case (CancelSuccess oid)
    with Pair show ?thesis
      by (auto simp: cancel_success_def Let_def split: sum.splits)
  next
    case (CancelFinally oid)
    with Pair show ?thesis
      by (auto simp: cancel_finally_def split: sum.splits)
  qed (use assms Pair in \<open>auto simp: place_order_def place_append_def place_finally_def
         cancel_order_def\<close>)
qed

lemma run_between:
  assumes "\<forall>e \<in> set evs. \<not> refresher_block e"
  shows "snd (run evs s) = snd s \<and>
         (\<exists>new. orders_placed (fst (run evs s)) = orders_placed (fst s) @ new) \<and>
         order_ids_cancelled (fst s) |\<subseteq>| order_ids_cancelled (fst (run evs s))"
  using assms unfolding run_def
proof (induction evs arbitrary: s)
  case Nil
  then show ?case by simp
next
  case (Cons e evs)
  from Cons.prems have e: "\<not> refresher_block e"
    and rest: "\<forall>e \<in> set evs. \<not> refresher_block e"
    by simp_all
  from step_between [OF e, of s] obtain new1
    where s1: "snd (step e s) = snd s"
      and p1: "orders_placed (fst (step e s)) = orders_placed (fst s) @ new1"
      and c1: "order_ids_cancelled (fst s) |\<subseteq>| order_ids_cancelled (fst (step e s))"
    by blast
  from Cons.IH [OF rest, of "step e s"] obtain new2
    where s2: "snd (fold step evs (step e s)) = snd (step e s)"
      and p2: "orders_placed (fst (fold step evs (step e s))) =
               orders_placed (fst (step e s)) @ new2"
      and c2: "order_ids_cancelled (fst (step e s)) |\<subseteq>|
               order_ids_cancelled (fst (fold step evs (step e s)))"
    by blast
  from p1 p2 have "orders_placed (fst (fold step evs (step e s))) =
      orders_placed (fst s) @ (new1 @ new2)"
    by simp
  with s1 s2 c1 c2 show ?case by auto
qed

lemma stays_hidden:
  assumes s: "state m' \<noteq> None" and mem: "oid |\<in>| order_ids_cancelled m'"
    and quiet: "\<forall>e \<in> set evs. polled e = None"
  shows "oid |\<in>| order_ids_cancelled (fst (run evs (m', r))) \<and>
         (\<exists>ob. get_order_book (fst (run evs (m', r))) = Some ob \<and>
            oid \<notin> order_id ` set (orders ob))"
proof -
  have later: "oid |\<in>| order_ids_cancelled (fst (run evs (m', r)))"
    using quiet mem by (intro run_unpolled_cancelled) simp_all
  have "state (fst (run evs (m', r))) \<noteq> None"
    using s by (intro run_state_stays) simp
  then obtain ob where ob: "get_order_book (fst (run evs (m', r))) = Some ob"
    using get_order_book_Some by fastforce
  from get_order_book_hides [OF ob] later
  have "oid \<notin> order_id ` set (orders ob)" by blast
  with later ob show ?thesis by blast
qed

text \<open>
  Claim C4 as stated fails: the same order is placed twice and a refresh then runs with
  success. Both occurrences were placed before the copy was taken, the copy holds the
  order once, and one occurrence is still among the placed orders after the cycle.
\<close>

theorem reconciliation_counterexample:
  "orders_placed (fst (run example_duplicate_placing (init, None))) =
     [Order 3 (), Order 3 ()] \<and>
   refresh_begin (fst (run example_duplicate_placing (init, None))) = ({||}, [Order 3 ()]) \<and>
   state (fst (run (example_duplicate_placing @
                      [RefreshBegin, RefreshEnd (Returns [Order 3 ()]) None]) (init, None))) =
     Some (Snapshot [Order 3 ()] None) \<and>
   orders_placed (fst (run (example_duplicate_placing @
                      [RefreshBegin, RefreshEnd (Returns [Order 3 ()]) None]) (init, None))) =
     [Order 3 ()]"
  by (simp add: run_def example_duplicate_placing_def init_def refresh_begin_def fetch_def
      refresh_end_def list_remove_def place_order_def place_append_def place_finally_def)

text \<open>
  Claim C4, amended. The refresher takes its copies in its first block on the manager
  \<open>m0\<close>; while the providers are called the other threads run their blocks \<open>evs\<close>, which
  lead to the manager \<open>m\<close>; the providers return. Then the second block succeeds: the
  cancelled ids become those of \<open>m\<close> without those of \<open>m0\<close>; the placed orders of \<open>m\<close>
  are those of \<open>m0\<close> followed by later placements \<open>new\<close>, and what stays is \<open>left\<close>
  followed by \<open>new\<close>, where \<open>left\<close> is the placed orders of \<open>m0\<close> with one
  occurrence of each different order taken away (the copy is a set), so nothing of them
  when they are pairwise different; and the new snapshot is installed. Consequently an
  id that is among the cancelled ids of \<open>m\<close> but was not among those of \<open>m0\<close> is still
  among them afterwards, and it stays there, and out of every view, as long as no further
  refresh succeeds.
\<close>

theorem reconciliation:
  assumes between: "\<forall>e \<in> set evs. \<not> refresher_block e"
    and run: "run evs (m0, Some (refresh_begin m0)) = (m, r)"
    and fetched: "fetch get_orders get_balances = Returns (ords, bals)"
  shows "\<exists>m' new left.
           step (RefreshEnd get_orders get_balances) (m, r) = (m', None) \<and>
           refresh_end (refresh_begin m0) (Returns (ords, bals)) m = (m', None) \<and>
           order_ids_cancelled m' = order_ids_cancelled m |-| order_ids_cancelled m0 \<and>
           orders_placed m = orders_placed m0 @ new \<and>
           orders_placed m' = left @ new \<and>
           mset left + mset (remdups (orders_placed m0)) = mset (orders_placed m0) \<and>
           (distinct (orders_placed m0) \<longrightarrow> left = []) \<and>
           state m' = Some (Snapshot ords bals) \<and>
           (\<forall>oid. oid |\<in>| order_ids_cancelled m \<longrightarrow> oid |\<notin>| order_ids_cancelled m0 \<longrightarrow>
              oid |\<in>| order_ids_cancelled m' \<and>
              (\<forall>evs' r'. (\<forall>e \<in> set evs'. polled e = None) \<longrightarrow>
                 oid |\<in>| order_ids_cancelled (fst (run evs' (m', r'))) \<and>
                 (\<exists>ob. get_order_book (fst (run evs' (m', r'))) = Some ob \<and>
                    oid \<notin> order_id ` set (orders ob))))"
proof -
  let ?p0 = "remdups (orders_placed m0)"
  from run_between [OF between, of "(m0, Some (refresh_begin m0))"] run
  obtain new where r: "r = Some (refresh_begin m0)"
    and placed: "orders_placed m = orders_placed m0 @ new"
    by auto
  have d: "distinct ?p0" and sub: "set ?p0 \<subseteq> set (orders_placed m0)"
    by simp_all
  define left where "left = fst (remove_placed ?p0 (orders_placed m0))"
  from remove_placed_append [OF d sub, of new]
  have rem: "remove_placed ?p0 (orders_placed m) = (left @ new, None)"
    and rem0: "remove_placed ?p0 (orders_placed m0) = (left, None)"
    by (simp_all add: placed left_def prod_eq_iff)
  define m' where "m' = m\<lparr> order_ids_cancelled := order_ids_cancelled m |-| order_ids_cancelled m0,
                              orders_placed := left @ new,
                              state := Some (Snapshot ords bals),
                              refresh_count := refresh_count m + 1 \<rparr>"
  have re: "refresh_end (refresh_begin m0) (Returns (ords, bals)) m = (m', None)"
    using rem by (simp add: refresh_end_def refresh_begin_def m'_def)
  then have st: "step (RefreshEnd get_orders get_balances) (m, r) = (m', None)"
    by (simp add: r fetched)
  have c: "order_ids_cancelled m' = order_ids_cancelled m |-| order_ids_cancelled m0"
    and p: "orders_placed m' = left @ new"
    and s: "state m' = Some (Snapshot ords bals)"
    by (simp_all add: m'_def)
  from remove_placed_mset [OF rem0]
  have ms: "mset left + mset ?p0 = mset (orders_placed m0)"
    by (simp add: subset_mset.diff_add)
  have dl: "left = []" if "distinct (orders_placed m0)"
  proof -
    from that have "?p0 = orders_placed m0" by simp
    with ms show ?thesis by simp
  qed
  have surv: "oid |\<in>| order_ids_cancelled m' \<and>
              (\<forall>evs' r'. (\<forall>e \<in> set evs'. polled e = None) \<longrightarrow>
                 oid |\<in>| order_ids_cancelled (fst (run evs' (m', r'))) \<and>
                 (\<exists>ob. get_order_book (fst (run evs' (m', r'))) = Some ob \<and>
                    oid \<notin> order_id ` set (orders ob)))"
    if "oid |\<in>| order_ids_cancelled m" "oid |\<notin>| order_ids_cancelled m0" for oid
  proof -
    from that c have mem: "oid |\<in>| order_ids_cancelled m'" by simp
    moreover from s have "state m' \<noteq> None" by simp
    ultimately show ?thesis using stays_hidden [of m' oid] by blast
  qed
  from st re c placed p ms dl s surv show ?thesis by blast
qed

lemma fminus_example: "{|5, 7|} |-| {|5|} = {|7::int|}"
  by auto

lemma example_refresh_end:
  "refresh_end ({|5|}, [Order 3 ()]) (Returns ([Order 1 (), Order 3 (), Order 7 ()], None))
     example_racing = (example_reconciled, None)"
  by (simp add: refresh_end_def example_racing_def example_reconciled_def list_remove_def
      fminus_example)

lemma finsert_example: "finsert 7 {|5|} = {|5, 7::int|}"
  by auto

lemma example_between_run:
  "run example_between (example_polling, Some (refresh_begin example_polling)) =
     (example_racing, Some ({|5|}, [Order 3 ()]))"
  by (simp add: run_def example_between_def example_polling_def example_racing_def
      refresh_begin_def cancel_order_def cancel_success_def cancel_finally_def set_remove_def
      place_order_def place_append_def place_finally_def finsert_example)

lemma example_step_end:
  "step (RefreshEnd (Returns [Order 1 (), Order 3 (), Order 7 ()]) None)
     (example_racing, Some ({|5|}, [Order 3 ()])) = (example_reconciled, None)"
  by (simp add: fetch_def example_refresh_end)

theorem reconciliation_witness:
  "map refresher_block example_between = [False, False, False, False, False, False] \<and>
   run example_between (example_polling, Some (refresh_begin example_polling)) =
     (example_racing, Some ({|5|}, [Order 3 ()])) \<and>
   fetch (Returns [Order 1 (), Order 3 (), Order 7 ()]) (None :: unit call option) =
     Returns ([Order 1 (), Order 3 (), Order 7 ()], None) \<and>
   step (RefreshEnd (Returns [Order 1 (), Order 3 (), Order 7 ()]) None)
     (example_racing, Some ({|5|}, [Order 3 ()])) = (example_reconciled, None) \<and>
   order_ids_cancelled example_reconciled =
     order_ids_cancelled example_racing |-| order_ids_cancelled example_polling \<and>
   distinct (orders_placed example_polling) \<and>
   orders_placed example_racing = orders_placed example_polling @ [Order 4 ()] \<and>
   orders_placed example_reconciled = [Order 4 ()] \<and>
   7 |\<in>| order_ids_cancelled example_racing \<and>
   7 |\<notin>| order_ids_cancelled example_polling \<and>
   map polled example_quiet = [None, None, None] \<and>
   7 |\<in>| order_ids_cancelled (fst (run example_quiet (example_reconciled, None))) \<and>
   (\<exists>ob. get_order_book (fst (run example_quiet (example_reconciled, None))) = Some ob \<and>
      7 \<notin> order_id ` set (orders ob))"
proof -
  have b: "\<forall>e \<in> set example_between. \<not> refresher_block e"
    and b': "map refresher_block example_between = [False, False, False, False, False, False]"
    by (simp_all add: example_between_def)
  have f: "fetch (Returns [Order 1 (), Order 3 (), Order 7 ()]) (None :: unit call option) =
      Returns ([Order 1 (), Order 3 (), Order 7 ()], None)"
    by (simp add: fetch_def)
  have d: "distinct (orders_placed example_polling)"
    and pp: "orders_placed example_polling = [Order 3 ()]"
    and pr: "orders_placed example_racing = [Order 3 (), Order 4 ()]"
    by (simp_all add: example_polling_def example_racing_def)
  have m7: "7 |\<in>| order_ids_cancelled example_racing"
    and n7: "7 |\<notin>| order_ids_cancelled example_polling"
    by (simp_all add: example_racing_def example_polling_def)
  have q: "\<forall>e \<in> set example_quiet. polled e = None"
    and q': "map polled example_quiet = [None, None, None]"
    by (simp_all add: example_quiet_def fetch_def)
  from reconciliation [OF b example_between_run f] obtain m' new left
    where st: "step (RefreshEnd (Returns [Order 1 (), Order 3 (), Order 7 ()]) None)
                 (example_racing, Some ({|5|}, [Order 3 ()])) = (m', None)"
      and c: "order_ids_cancelled m' =
                order_ids_cancelled example_racing |-| order_ids_cancelled example_polling"
      and p: "orders_placed example_racing = orders_placed example_polling @ new"
      and p': "orders_placed m' = left @ new"
      and dl: "distinct (orders_placed example_polling) \<longrightarrow> left = []"
      and surv: "\<forall>oid. oid |\<in>| order_ids_cancelled example_racing \<longrightarrow>
              oid |\<notin>| order_ids_cancelled example_polling \<longrightarrow>
              oid |\<in>| order_ids_cancelled m' \<and>
              (\<forall>evs' r'. (\<forall>e \<in> set evs'. polled e = None) \<longrightarrow>
                 oid |\<in>| order_ids_cancelled (fst (run evs' (m', r'))) \<and>
                 (\<exists>ob. get_order_book (fst (run evs' (m', r'))) = Some ob \<and>
                    oid \<notin> order_id ` set (orders ob)))"
    by (elim exE conjE)
  from st example_step_end have m': "m' = example_reconciled" by simp
  from p have new: "new = [Order 4 ()]" by (simp add: pp pr)
  from dl d have "left = []" by (rule mp)
  with p' new m' have placed: "orders_placed example_reconciled = [Order 4 ()]" by simp
  from surv have "7 |\<in>| order_ids_cancelled example_racing \<longrightarrow>
              7 |\<notin>| order_ids_cancelled example_polling \<longrightarrow>
              7 |\<in>| order_ids_cancelled m' \<and>
              (\<forall>evs' r'. (\<forall>e \<in> set evs'. polled e = None) \<longrightarrow>
                 7 |\<in>| order_ids_cancelled (fst (run evs' (m', r'))) \<and>
                 (\<exists>ob. get_order_book (fst (run evs' (m', r'))) = Some ob \<and>
                    7 \<notin> order_id ` set (orders ob)))"
    by (rule spec)
  with m7 n7 have "\<forall>evs' r'. (\<forall>e \<in> set evs'. polled e = None) \<longrightarrow>
                 7 |\<in>| order_ids_cancelled (fst (run evs' (m', r'))) \<and>
                 (\<exists>ob. get_order_book (fst (run evs' (m', r'))) = Some ob \<and>
                    7 \<notin> order_id ` set (orders ob))"
    by simp
  then have "\<forall>r'. (\<forall>e \<in> set example_quiet. polled e = None) \<longrightarrow>
                 7 |\<in>| order_ids_cancelled (fst (run example_quiet (m', r'))) \<and>
                 (\<exists>ob. get_order_book (fst (run example_quiet (m', r'))) = Some ob \<and>
                    7 \<notin> order_id ` set (orders ob))"
    by (rule spec)
  then have "(\<forall>e \<in> set example_quiet. polled e = None) \<longrightarrow>
                 7 |\<in>| order_ids_cancelled (fst (run example_quiet (m', None))) \<and>
                 (\<exists>ob. get_order_book (fst (run example_quiet (m', None))) = Some ob \<and>
                    7 \<notin> order_id ` set (orders ob))"
    by (rule spec)
  then have later:
        "7 |\<in>| order_ids_cancelled (fst (run example_quiet (m', None))) \<and>
         (\<exists>ob. get_order_book (fst (run example_quiet (m', None))) = Some ob \<and>
            7 \<notin> order_id ` set (orders ob))"
    using q by (rule mp)
  have pr': "orders_placed example_racing = orders_placed example_polling @ [Order 4 ()]"
    using p new by simp
  from b' example_between_run f example_step_end c [unfolded m'] d pr' placed m7 n7 q'
    later [unfolded m']
  show ?thesis
    by (intro conjI) (rule conjunct1, assumption | rule conjunct2, assumption | assumption)+
qed

section \<open>A refresh that fails\<close>




section \<open>Placing\<close>

lemma run_placing_count:
  "currently_placing_orders (fst (run evs s)) =
   currently_placing_orders (fst s) + int (length (filter (\<lambda>e. e = PlaceOrder) evs))
     - int (length (filter (\<lambda>e. e = PlaceFinally) evs))"
  unfolding run_def
proof (induction evs arbitrary: s)
  case Nil
  then show ?case by simp
next
  case (Cons e evs)
  obtain m r where s: "s = (m, r)" by (cases s)
  have "currently_placing_orders (fst (step e s)) =
        currently_placing_orders (fst s) + (if e = PlaceOrder then 1 else 0)
          - (if e = PlaceFinally then 1 else 0)"
    by (cases e)
      (auto simp: s place_order_def place_append_def place_finally_def cancel_order_def
        cancel_success_def cancel_finally_def refresh_end_def Let_def
        split: sum.splits option.splits call.splits prod.splits)
  with Cons.IH [of "step e s"] show ?case by simp
qed

text \<open>
  Claim C6. \<open>place_order\<close> adds one to \<open>_currently_placing_orders\<close>. The placement thread
  appends the order when the placer returns one, appends nothing when it returns \<open>None\<close>,
  and in each of the three cases (an order, \<open>None\<close>, an exception) takes exactly one off
  \<open>_currently_placing_orders\<close>, so that \<open>place_order\<close> followed by its thread leaves the
  count as it was. With the threads interleaved in any way, the count is its start value
  plus the number of \<open>place_order\<close> blocks minus the number of \<open>finally\<close> blocks run.
\<close>

theorem placement_bookkeeping:
  "place_order m = m\<lparr> currently_placing_orders := currently_placing_orders m + 1 \<rparr> \<and>
   thread_place_order (Returns (Some order)) m =
     (m\<lparr> orders_placed := orders_placed m @ [order],
         currently_placing_orders := currently_placing_orders m - 1 \<rparr>, None) \<and>
   thread_place_order (Returns None) m =
     (m\<lparr> currently_placing_orders := currently_placing_orders m - 1 \<rparr>, None) \<and>
   thread_place_order (Raises e) m =
     (m\<lparr> currently_placing_orders := currently_placing_orders m - 1 \<rparr>, Some e) \<and>
   currently_placing_orders (fst (thread_place_order placed m)) =
     currently_placing_orders m - 1 \<and>
   currently_placing_orders (fst (thread_place_order placed (place_order m))) =
     currently_placing_orders m \<and>
   currently_placing_orders (fst (run evs (m, r))) =
     currently_placing_orders m + int (length (filter (\<lambda>e. e = PlaceOrder) evs))
       - int (length (filter (\<lambda>e. e = PlaceFinally) evs))"
  using run_placing_count [of evs "(m, r)"]
  by (simp add: place_order_def thread_place_order_def place_append_def place_finally_def
      split: call.splits option.splits)

section \<open>Cancelling\<close>

text \<open>
  Claim C7 as stated fails: after order 7 has been cancelled with success and a second
  cancellation of it fails, id 7 is still in \<open>_order_ids_cancelled\<close>.
\<close>

theorem failed_cancellation_counterexample:
  "7 |\<in>| order_ids_cancelled (fst (thread_cancel_order 7 (Returns False) example_twice_cancelled))"
  by (simp add: example_twice_cancelled_def thread_cancel_order_def cancel_order_def
      cancel_success_def cancel_finally_def set_remove_def init_def)

lemma cancel_finally_eq:
  "cancel_finally oid m = (m\<lparr> order_ids_cancelling := order_ids_cancelling m |-| {|oid|} \<rparr>, None)"
proof (cases "oid |\<in>| order_ids_cancelling m")
  case True
  then show ?thesis by (simp add: cancel_finally_def set_remove_def)
next
  case False
  then have "order_ids_cancelling m |-| {|oid|} = order_ids_cancelling m" by auto
  with False show ?thesis by (simp add: cancel_finally_def set_remove_def)
qed

lemma cancel_finally_absent:
  "oid |\<notin>| order_ids_cancelling m \<Longrightarrow> cancel_finally oid m = (m, None)"
  by (simp add: cancel_finally_def set_remove_def)

text \<open>
  Claim C7, amended. When the canceller returns a false value or raises, the thread
  only removes the id from \<open>_order_ids_cancelling\<close>: afterwards the id is not in that set,
  and \<open>_order_ids_cancelled\<close> is what it was before (the id is in it only when an earlier
  cancellation of the same id succeeded and no refresh has retired it yet). The removal in
  the \<open>finally\<close> block does nothing, and raises nothing, when the id is already absent.
\<close>

theorem failed_cancellation:
  assumes "cancelled = Returns False \<or> cancelled = Raises e"
  shows "fst (thread_cancel_order oid cancelled m) =
           m\<lparr> order_ids_cancelling := order_ids_cancelling m |-| {|oid|} \<rparr> \<and>
         oid |\<notin>| order_ids_cancelling (fst (thread_cancel_order oid cancelled m)) \<and>
         order_ids_cancelled (fst (thread_cancel_order oid cancelled m)) =
           order_ids_cancelled m \<and>
         (oid |\<notin>| order_ids_cancelling m' \<longrightarrow> cancel_finally oid m' = (m', None))"
  using assms
  by (auto simp: thread_cancel_order_def cancel_finally_eq cancel_finally_absent)

theorem failed_cancellation_witness:
  "fst (thread_cancel_order 2 (Returns False) example_manager) =
     example_manager\<lparr> order_ids_cancelling := {||} \<rparr> \<and>
   2 |\<notin>| order_ids_cancelling (fst (thread_cancel_order 2 (Raises CollaboratorError) example_manager)) \<and>
   2 |\<notin>| order_ids_cancelled (fst (thread_cancel_order 2 (Returns False) example_manager)) \<and>
   9 |\<notin>| order_ids_cancelling example_manager \<and>
   cancel_finally 9 example_manager = (example_manager, None)"
proof -
  have h1: "Returns False = Returns False \<or> Returns False = Raises CollaboratorError" by simp
  have h2: "Raises CollaboratorError = Returns False \<or>
            (Raises CollaboratorError :: bool call) = Raises CollaboratorError" by simp
  have n9: "9 |\<notin>| order_ids_cancelling example_manager"
    by (simp add: example_manager_def)
  note a = failed_cancellation [OF h1, of 2 example_manager example_manager]
  note b = failed_cancellation [OF h2, of 2 example_manager example_manager]
  note c = failed_cancellation [OF h1, of 2 example_manager example_manager]
  note d = failed_cancellation [OF h1, of 9 example_manager example_manager]
  have "fst (thread_cancel_order 2 (Returns False) example_manager) =
          example_manager\<lparr> order_ids_cancelling := {||} \<rparr>"
    using a [THEN conjunct1] by (simp add: example_manager_def)
  moreover note b [THEN conjunct2, THEN conjunct1]
  moreover have "2 |\<notin>| order_ids_cancelled (fst (thread_cancel_order 2 (Returns False) example_manager))"
    using c [THEN conjunct2, THEN conjunct2, THEN conjunct1] by (simp add: example_manager_def)
  moreover note n9
  moreover have "cancel_finally 9 example_manager = (example_manager, None)"
    using d [THEN conjunct2, THEN conjunct2, THEN conjunct2] n9 by (rule mp)
  ultimately show ?thesis by (intro conjI)
qed

section \<open>The refresh counter\<close>

lemma wait_loop_Some:
  assumes "wait_loop old counter k = Some j"
  shows "k \<le> j \<and> old < counter j \<and> (\<forall>i. k \<le> i \<and> i < j \<longrightarrow> counter i \<le> old)"
  using assms
proof (induction rule: wait_loop.raw_induct [rotated 1, consumes 1])
  case (1 f old counter k j)
  show ?case
  proof (cases "old < counter k")
    case True
    with 1(2) show ?thesis by auto
  next
    case False
    with 1(2) have "f old counter (Suc k) = Some j" by simp
    from 1(1) [OF this] False show ?thesis
      by (auto simp: less_Suc_eq_le dest: le_neq_implies_less Suc_leD)
  qed
qed

lemma wait_loop_returns:
  "old < counter j \<Longrightarrow> k \<le> j \<Longrightarrow> \<exists>i. wait_loop old counter k = Some i"
proof (induction "j - k" arbitrary: k)
  case 0
  then have "k = j" by simp
  with 0 show ?case by (subst wait_loop.simps) simp
next
  case (Suc n)
  show ?case
  proof (cases "old < counter k")
    case True
    then show ?thesis by (subst wait_loop.simps) simp
  next
    case False
    from Suc have "n = j - Suc k" "Suc k \<le> j" by simp_all
    from Suc(1) [OF this(1) Suc(3) this(2)] False show ?thesis
      by (subst wait_loop.simps) simp
  qed
qed

lemma wait_loop_never:
  assumes "\<And>i. k \<le> i \<Longrightarrow> counter i \<le> old"
  shows "wait_loop old counter k = None"
proof (cases "wait_loop old counter k")
  case None
  then show ?thesis .
next
  case (Some j)
  from wait_loop_Some [OF this] have "k \<le> j" "old < counter j" by simp_all
  with assms [of j] show ?thesis by simp
qed

lemma step_copies_current:
  assumes "copies_current s"
  shows "copies_current (step e s)"
proof (cases s)
  case (Pair m r)
  show ?thesis
  proof (cases e)
    case (PlaceAppend order)
    with assms Pair show ?thesis
      by (auto simp: copies_current_def place_append_def list_all_iff split: option.splits)
  next
    case RefreshBegin
    with Pair show ?thesis
      by (simp add: copies_current_def refresh_begin_def list_all_iff)
  next
    case (RefreshEnd get_orders get_balances)
    with Pair show ?thesis
      by (simp add: copies_current_def split: option.splits)
  qed (use assms Pair in \<open>auto simp: copies_current_def place_order_def place_finally_def
         cancel_order_def cancel_success_def cancel_finally_def Let_def
         split: option.splits sum.splits\<close>)
qed

lemma run_copies_current:
  "copies_current s \<Longrightarrow> copies_current (run evs s)"
  unfolding run_def
proof (induction evs arbitrary: s)
  case Nil
  then show ?case by simp
next
  case (Cons e evs)
  from Cons.prems have "copies_current (step e s)" by (rule step_copies_current)
  from Cons.IH [OF this] show ?case by simp
qed

lemma refresh_end_succeeds:
  assumes "copies_current (m, Some before)"
  shows "snd (refresh_end before (Returns (ords, bals)) m) = None"
proof -
  from assms have "distinct (snd before)" "set (snd before) \<subseteq> set (orders_placed m)"
    by (auto simp: copies_current_def list_all_iff)
  then have "snd (remove_placed (snd before) (orders_placed m)) = None"
    by (rule remove_placed_succeeds)
  then obtain placed' where "remove_placed (snd before) (orders_placed m) = (placed', None)"
    by (cases "remove_placed (snd before) (orders_placed m)") simp
  then show ?thesis
    by (simp add: refresh_end_def Let_def)
qed

lemma refresh_end_count_success:
  "refresh_end before fetched m = (m', None) \<Longrightarrow> refresh_count m' = refresh_count m + 1"
  by (auto simp: refresh_end_def Let_def split: call.splits prod.splits option.splits)

lemma step_unpolled_count:
  assumes "polled e = None"
  shows "refresh_count (fst (step e s)) = refresh_count (fst s)"
proof (cases s)
  case (Pair m r)
  show ?thesis
  proof (cases e)
    case (RefreshEnd get_orders get_balances)
    with assms obtain x where "fetch get_orders get_balances = Raises x"
      using polled_None_fetch by blast
    with Pair RefreshEnd show ?thesis by (simp split: option.splits)
  qed (use Pair in \<open>simp_all add: place_order_def place_append_def place_finally_def
         cancel_order_def cancel_success_def cancel_finally_def Let_def split: sum.splits\<close>)
qed

lemma step_count_mono: "refresh_count (fst s) \<le> refresh_count (fst (step e s))"
proof (cases "polled e")
  case None
  then show ?thesis by (simp add: step_unpolled_count)
next
  case (Some ords)
  then obtain get_orders get_balances where e: "e = RefreshEnd get_orders get_balances"
    by (cases e) simp_all
  obtain m r where s: "s = (m, r)" by (cases s)
  show ?thesis
  proof (cases r)
    case None
    with e s show ?thesis by simp
  next
    case (Some before)
    obtain m' x where re: "refresh_end before (fetch get_orders get_balances) m = (m', x)"
      by (cases "refresh_end before (fetch get_orders get_balances) m")
    show ?thesis
    proof (cases x)
      case None
      with re refresh_end_count_success [of before _ m m'] e s Some show ?thesis by simp
    next
      case (Some err)
      with re refresh_end_failure [of before _ m m' err] e s \<open>r = Some before\<close>
      show ?thesis by simp
    qed
  qed
qed

lemma run_count_mono: "refresh_count (fst s) \<le> refresh_count (fst (run evs s))"
  unfolding run_def
proof (induction evs arbitrary: s)
  case Nil
  then show ?case by simp
next
  case (Cons e evs)
  from step_count_mono [of s e] Cons [of "step e s"] show ?case by simp
qed

lemma run_unpolled_count:
  "\<forall>e \<in> set evs. polled e = None \<Longrightarrow>
   refresh_count (fst (run evs s)) = refresh_count (fst s)"
  unfolding run_def
  by (induction evs arbitrary: s) (simp_all add: step_unpolled_count)

text \<open>
  Claim C9. A refresh that succeeds adds exactly one to \<open>_refresh_count\<close>, and in a run
  of the program every refresh whose providers return does succeed; a refresh that fails
  and every other block leave the counter unchanged, so the counter never decreases.
  \<open>wait_for_order_book_refresh\<close> returns only at a read that is strictly greater than
  its first read, all reads between being not greater, and it does return when such a read
  comes. When no refresh of a schedule succeeds, the call never returns.
\<close>

theorem refresh_counter:
  "(refresh_end before fetched m = (m', None) \<longrightarrow> refresh_count m' = refresh_count m + 1) \<and>
   (refresh_end before fetched m = (m', Some e) \<longrightarrow> refresh_count m' = refresh_count m) \<and>
   (run evs (init, None) = (m, Some before) \<longrightarrow>
      snd (refresh_end before (Returns (ords, bals)) m) = None) \<and>
   (polled ev = None \<longrightarrow> refresh_count (fst (step ev s)) = refresh_count (fst s)) \<and>
   refresh_count (fst s) \<le> refresh_count (fst (run evs s)) \<and>
   (wait_for_order_book_refresh counter = Some k \<longrightarrow>
      0 < k \<and> counter 0 < counter k \<and> (\<forall>i. 0 < i \<and> i < k \<longrightarrow> counter i \<le> counter 0)) \<and>
   (0 < k \<and> counter 0 < counter k \<longrightarrow> wait_for_order_book_refresh counter \<noteq> None) \<and>
   ((\<forall>i. polled (sched i) = None) \<longrightarrow>
      wait_for_order_book_refresh
        (\<lambda>k. refresh_count (fst (run (map sched [0..<at k]) s))) = None)"
proof -
  have a: "refresh_count m' = refresh_count m + 1"
    if "refresh_end before fetched m = (m', None)"
    using that by (rule refresh_end_count_success)
  have b: "refresh_count m' = refresh_count m"
    if "refresh_end before fetched m = (m', Some e)"
    using refresh_end_failure [OF that] by simp
  have c: "snd (refresh_end before (Returns (ords, bals)) m) = None"
    if "run evs (init, None) = (m, Some before)"
  proof -
    have "copies_current (init, None)" by (simp add: copies_current_def)
    then have "copies_current (run evs (init, None))" by (rule run_copies_current)
    with that show ?thesis by (simp add: refresh_end_succeeds)
  qed
  have d: "refresh_count (fst (step ev s)) = refresh_count (fst s)" if "polled ev = None"
    using that by (rule step_unpolled_count)
  have f: "0 < k \<and> counter 0 < counter k \<and> (\<forall>i. 0 < i \<and> i < k \<longrightarrow> counter i \<le> counter 0)"
    if "wait_for_order_book_refresh counter = Some k"
    using wait_loop_Some [of "counter 0" counter "Suc 0" k] that
    by (auto simp: wait_for_order_book_refresh_def)
  have g: "wait_for_order_book_refresh counter \<noteq> None" if "0 < k \<and> counter 0 < counter k"
    using wait_loop_returns [of "counter 0" counter k "Suc 0"] that
    by (auto simp: wait_for_order_book_refresh_def)
  have h: "wait_for_order_book_refresh
             (\<lambda>k. refresh_count (fst (run (map sched [0..<at k]) s))) = None"
    if quiet: "\<forall>i. polled (sched i) = None"
  proof -
    have "refresh_count (fst (run (map sched [0..<n]) s)) = refresh_count (fst s)" for n
      using quiet by (intro run_unpolled_count) simp
    then show ?thesis
      unfolding wait_for_order_book_refresh_def by (intro wait_loop_never) simp
  qed
  from a b c d run_count_mono [of s evs] f g h show ?thesis by blast
qed

lemma example_wait: "wait_for_order_book_refresh example_counter = Some 3"
proof -
  have "wait_loop 4 example_counter 3 = Some 3"
    by (subst wait_loop.simps) (simp add: example_counter_def)
  then have "wait_loop 4 example_counter 2 = Some 3"
    by (subst wait_loop.simps) (simp add: example_counter_def numeral_3_eq_3 numeral_2_eq_2)
  then have "wait_loop 4 example_counter 1 = Some 3"
    by (subst wait_loop.simps) (simp add: example_counter_def numeral_2_eq_2)
  then show ?thesis
    by (simp add: wait_for_order_book_refresh_def example_counter_def)
qed

lemma example_first_refresh: "run [RefreshBegin] (init, None) = (init, Some ({||}, []))"
  by (simp add: run_def refresh_begin_def init_def)

theorem refresh_counter_witness:
  "refresh_end ({|5|}, [Order 3 ()]) (Returns ([Order 1 (), Order 3 (), Order 7 ()], None))
     example_racing = (example_reconciled, None) \<and>
   refresh_count example_reconciled = refresh_count example_racing + 1 \<and>
   refresh_end ({|5|}, [Order 3 ()]) (Raises CollaboratorError) example_racing =
     (example_racing, Some CollaboratorError) \<and>
   run [RefreshBegin] (init, None) = (init :: (unit, unit) manager, Some ({||}, [])) \<and>
   snd (refresh_end ({||}, []) (Returns ([Order 1 ()], None)) (init :: (unit, unit) manager)) = None \<and>
   polled (CancelOrder 1 :: (unit, unit) event) = None \<and>
   refresh_count (fst (step (CancelOrder 1) (example_manager, None))) =
     refresh_count example_manager \<and>
   wait_for_order_book_refresh example_counter = Some 3 \<and>
   example_counter 0 < example_counter 3 \<and>
   wait_for_order_book_refresh example_counter \<noteq> None \<and>
   (\<forall>i. polled (example_failing i) = None) \<and>
   wait_for_order_book_refresh
     (\<lambda>k. refresh_count (fst (run (map example_failing [0..<2 * k]) (example_manager, None)))) =
   None"
proof -
  note t = refresh_counter [where before = "({|5|}, [Order 3 ()])"
      and fetched = "Returns ([Order 1 (), Order 3 (), Order 7 ()], None)"
      and m = example_racing and m' = example_reconciled]
  have fail: "refresh_end ({|5|}, [Order 3 ()]) (Raises CollaboratorError) example_racing =
      (example_racing, Some CollaboratorError)"
    by simp
  have unpolled: "polled (CancelOrder 1 :: (unit, unit) event) = None" by simp
  have gt: "0 < (3::nat) \<and> example_counter 0 < example_counter 3"
    by (simp add: example_counter_def)
  have quiet: "\<forall>i. polled (example_failing i) = None"
    by (simp add: example_failing_def fetch_def)
  have a: "refresh_count example_reconciled = refresh_count example_racing + 1"
    using t [THEN conjunct1] example_refresh_end by (rule mp)
  have c: "snd (refresh_end ({||}, []) (Returns ([Order 1 ()], None))
             (init :: (unit, unit) manager)) = None"
    using refresh_counter [where m = "init :: (unit, unit) manager" and evs = "[RefreshBegin]"
        and before = "({||}, [])" and ords = "[Order 1 ()]" and bals = None,
        THEN conjunct2, THEN conjunct2, THEN conjunct1] example_first_refresh
    by (rule mp)
  have d: "refresh_count (fst (step (CancelOrder 1) (example_manager, None))) =
      refresh_count example_manager"
    using refresh_counter [where ev = "CancelOrder 1" and s = "(example_manager, None)",
        THEN conjunct2, THEN conjunct2, THEN conjunct2, THEN conjunct1] unpolled
    by simp
  have g: "wait_for_order_book_refresh example_counter \<noteq> None"
    using refresh_counter [where counter = example_counter and k = 3,
        THEN conjunct2, THEN conjunct2, THEN conjunct2, THEN conjunct2, THEN conjunct2,
        THEN conjunct2, THEN conjunct1] gt
    by (rule mp)
  have h: "wait_for_order_book_refresh
     (\<lambda>k. refresh_count (fst (run (map example_failing [0..<2 * k]) (example_manager, None)))) =
     None"
    using refresh_counter [where sched = example_failing and at = "\<lambda>k. 2 * k"
        and s = "(example_manager, None)",
        THEN conjunct2, THEN conjunct2, THEN conjunct2, THEN conjunct2, THEN conjunct2,
        THEN conjunct2, THEN conjunct2] quiet
    by (rule mp)
  from example_refresh_end a fail example_first_refresh c unpolled d example_wait
    gt [THEN conjunct2] g quiet h
  show ?thesis by (intro conjI)
qed

section \<open>What a call of get_order_book leaves unchanged\<close>

declare h_add_placed.simps [simp del]

lemma h_add_placed_fold:
  "placed \<noteq> ords \<Longrightarrow> ords < length h \<Longrightarrow>
   h_add_placed i placed ords h = h[ords := fold add_placed (drop i (h ! placed)) (h ! ords)]"
proof (induction i placed ords h rule: h_add_placed.induct)
  case (1 i placed ords h)
  show ?case
  proof (cases "i < length (h ! placed)")
    case False
    then show ?thesis by (subst h_add_placed.simps) simp
  next
    case True
    let ?x = "h ! placed ! i"
    let ?h' = "if order_id ?x \<notin> set (map order_id (h ! ords))
               then list_append ords ?x h else h"
    have p: "?h' ! placed = h ! placed"
      using "1.prems" by (simp add: list_append_def)
    have a: "?h' ! ords = add_placed ?x (h ! ords)"
      using "1.prems" by (simp add: list_append_def add_placed_def)
    have len: "ords < length ?h'"
      using "1.prems" by (simp add: list_append_def)
    have upd: "?h'[ords := ys] = h[ords := ys]" for ys
      by (simp add: list_append_def)
    have "h_add_placed i placed ords h = h_add_placed (Suc i) placed ords ?h'"
      using True by (subst h_add_placed.simps) simp
    also have "\<dots> = ?h'[ords := fold add_placed (drop (Suc i) (?h' ! placed)) (?h' ! ords)]"
      using True "1.prems"(1) len by (rule "1.IH")
    also have "\<dots> = h[ords := fold add_placed (drop (Suc i) (h ! placed)) (add_placed ?x (h ! ords))]"
      by (simp only: p a upd)
    also have "\<dots> = h[ords := fold add_placed (drop i (h ! placed)) (h ! ords)]"
      using True by (simp add: Cons_nth_drop_Suc [symmetric])
    finally show ?thesis .
  qed
qed

lemma h_get_order_book_eq:
  assumes st: "h_state hm = Some (snap, bals)" and snap: "snap < length (list_objects hm)"
    and placed: "h_orders_placed hm < length (list_objects hm)"
  shows "h_get_order_book hm =
    Some (\<lparr> ref_orders = Suc (length (list_objects hm)),
            ref_balances = bals,
            ref_orders_being_placed = (h_currently_placing_orders hm > 0),
            ref_orders_being_cancelled = (fcard (h_order_ids_cancelling hm) > 0) \<rparr>,
          hm\<lparr> list_objects := list_objects hm @
              [fold add_placed (list_objects hm ! h_orders_placed hm) (list_objects hm ! snap),
               filter (\<lambda>order. order_id order |\<notin>| h_order_ids_cancelling hm \<and>
                                order_id order |\<notin>| h_order_ids_cancelled hm)
                 (fold add_placed (list_objects hm ! h_orders_placed hm) (list_objects hm ! snap))] \<rparr>)"
proof -
  let ?h = "list_objects hm"
  let ?n = "length ?h"
  let ?p = "h_orders_placed hm"
  let ?merged = "fold add_placed (?h ! ?p) (?h ! snap)"
  have neq: "?p \<noteq> ?n" using placed by simp
  have "h_add_placed 0 ?p ?n (?h @ [?h ! snap]) =
        (?h @ [?h ! snap])[?n := fold add_placed (drop 0 ((?h @ [?h ! snap]) ! ?p))
                                   ((?h @ [?h ! snap]) ! ?n)]"
    using neq by (rule h_add_placed_fold) simp
  also have "\<dots> = ?h @ [?merged]"
    using placed by (simp add: nth_append)
  finally have loop: "h_add_placed 0 ?p ?n (?h @ [?h ! snap]) = ?h @ [?merged]" .
  show ?thesis
    by (simp add: h_get_order_book_def st list_new_def loop)
qed

text \<open>
  Claim C10. On a manager with a snapshot (whose two addresses are addresses of list
  objects), \<open>get_order_book\<close> returns and leaves \<open>_state\<close>, \<open>_orders_placed\<close>, both sets
  of ids, \<open>_currently_placing_orders\<close> and \<open>_refresh_count\<close> as they were. Every list
  object that existed before the call has the contents it had; the list of the returned
  view is an object made by the call. So the manager read as values is the same before
  and after, and the view is the one computed on values.
\<close>

theorem get_order_book_frame:
  assumes "h_state hm = Some (snap, bals)" and "snap < length (list_objects hm)"
    and "h_orders_placed hm < length (list_objects hm)"
  shows "\<exists>ob hm'. h_get_order_book hm = Some (ob, hm') \<and>
           h_state hm' = h_state hm \<and>
           h_orders_placed hm' = h_orders_placed hm \<and>
           h_order_ids_cancelling hm' = h_order_ids_cancelling hm \<and>
           h_order_ids_cancelled hm' = h_order_ids_cancelled hm \<and>
           h_currently_placing_orders hm' = h_currently_placing_orders hm \<and>
           h_refresh_count hm' = h_refresh_count hm \<and>
           take (length (list_objects hm)) (list_objects hm') = list_objects hm \<and>
           length (list_objects hm) \<le> ref_orders ob \<and> ref_orders ob < length (list_objects hm') \<and>
           manager_of hm' = manager_of hm \<and>
           get_order_book (manager_of hm) = Some (view_of hm' ob)"
proof -
  let ?merged = "fold add_placed (list_objects hm ! h_orders_placed hm) (list_objects hm ! snap)"
  let ?keep = "\<lambda>order. order_id order |\<notin>| h_order_ids_cancelling hm \<and>
                       order_id order |\<notin>| h_order_ids_cancelled hm"
  let ?ob = "\<lparr> ref_orders = Suc (length (list_objects hm)), ref_balances = bals,
               ref_orders_being_placed = (h_currently_placing_orders hm > 0),
               ref_orders_being_cancelled = (fcard (h_order_ids_cancelling hm) > 0) \<rparr>"
  let ?hm' = "hm\<lparr> list_objects := list_objects hm @ [?merged, filter ?keep ?merged] \<rparr>"
  have run: "h_get_order_book hm = Some (?ob, ?hm')"
    using assms by (rule h_get_order_book_eq)
  have same: "manager_of ?hm' = manager_of hm"
    using assms by (simp add: manager_of_def nth_append)
  have view: "get_order_book (manager_of hm) = Some (view_of ?hm' ?ob)"
    using assms
    by (simp add: get_order_book_def manager_of_def view_of_def nth_append)
  have frame: "h_state ?hm' = h_state hm" "h_orders_placed ?hm' = h_orders_placed hm"
    "h_order_ids_cancelling ?hm' = h_order_ids_cancelling hm"
    "h_order_ids_cancelled ?hm' = h_order_ids_cancelled hm"
    "h_currently_placing_orders ?hm' = h_currently_placing_orders hm"
    "h_refresh_count ?hm' = h_refresh_count hm"
    "take (length (list_objects hm)) (list_objects ?hm') = list_objects hm"
    "length (list_objects hm) \<le> ref_orders ?ob" "ref_orders ?ob < length (list_objects ?hm')"
    by simp_all
  from run frame same view show ?thesis by (intro exI conjI)
qed

theorem get_order_book_frame_witness:
  "h_state example_heap_manager = Some (1, None) \<and>
   1 < length (list_objects example_heap_manager) \<and>
   h_orders_placed example_heap_manager < length (list_objects example_heap_manager) \<and>
   (\<exists>ob hm'. h_get_order_book example_heap_manager = Some (ob, hm') \<and>
      h_state hm' = Some (1, None) \<and> h_orders_placed hm' = 0 \<and>
      take 2 (list_objects hm') = [[Order 3 ()], [Order 1 (), Order 2 ()]] \<and>
      2 \<le> ref_orders ob \<and>
      manager_of hm' = example_manager \<and>
      view_of hm' ob = example_view)"
proof -
  have h1: "h_state example_heap_manager = Some (1, None)"
    and h2: "1 < length (list_objects example_heap_manager)"
    and h3: "h_orders_placed example_heap_manager < length (list_objects example_heap_manager)"
    by (simp_all add: example_heap_manager_def)
  have abs: "manager_of example_heap_manager = example_manager"
    by (simp add: manager_of_def example_heap_manager_def example_manager_def)
  have p: "h_orders_placed example_heap_manager = 0"
    and len: "length (list_objects example_heap_manager) = 2"
    and ls: "list_objects example_heap_manager = [[Order 3 ()], [Order 1 (), Order 2 ()]]"
    by (simp_all add: example_heap_manager_def)
  from get_order_book_frame [OF h1 h2 h3] obtain ob hm'
    where r: "h_get_order_book example_heap_manager = Some (ob, hm')"
      and f1: "h_state hm' = h_state example_heap_manager"
      and f2: "h_orders_placed hm' = h_orders_placed example_heap_manager"
      and f3: "take (length (list_objects example_heap_manager)) (list_objects hm') =
               list_objects example_heap_manager"
      and f4: "length (list_objects example_heap_manager) \<le> ref_orders ob"
      and f5: "manager_of hm' = manager_of example_heap_manager"
      and v: "get_order_book (manager_of example_heap_manager) = Some (view_of hm' ob)"
    by (elim exE conjE)
  have g1: "h_state hm' = Some (1, None)" using f1 h1 by (rule trans)
  have g2: "h_orders_placed hm' = 0" using f2 p by (rule trans)
  have g3: "take 2 (list_objects hm') = [[Order 3 ()], [Order 1 (), Order 2 ()]]"
    using f3 by (simp add: ls numeral_2_eq_2)
  have g4: "2 \<le> ref_orders ob" using f4 by (simp add: ls)
  have g5: "manager_of hm' = example_manager" using f5 abs by (rule trans)
  have g6: "view_of hm' ob = example_view"
    using v unfolding abs example_get_order_book by simp
  from r g1 g2 g3 g4 g5 g6
  have "\<exists>ob hm'. h_get_order_book example_heap_manager = Some (ob, hm') \<and>
      h_state hm' = Some (1, None) \<and> h_orders_placed hm' = 0 \<and>
      take 2 (list_objects hm') = [[Order 3 ()], [Order 1 (), Order 2 ()]] \<and>
      2 \<le> ref_orders ob \<and>
      manager_of hm' = example_manager \<and>
      view_of hm' ob = example_view"
    by (intro exI conjI)
  with h1 h2 h3 show ?thesis by (intro conjI)
qed

end
